theory Spec2Isabelle
  imports Complex_Main "HOL-Library.Sublist"
begin

section \<open>Running stitches: the embedding of \<^verbatim>\<open>lib/stitches/running_stitch.py\<close>\<close>

text \<open>
  Python exceptions are values: a function that can raise returns \<open>error + 'a\<close>, with
  \<open>Inl\<close> the exception. A function with a loop that need not end returns an
  \<open>option\<close> around that, \<open>None\<close> standing for a call that never returns.
\<close>

datatype error = IndexError | ZeroDivisionError

subsection \<open>\<^verbatim>\<open>bean_stitch\<close>\<close>

text \<open>
  \<^verbatim>\<open>for i in range(r): new_stitches.extend(copy(new_stitches[-2:]))\<close>.
  The slice \<^verbatim>\<open>[-2:]\<close> is the last two elements, or the whole list when it is shorter.
\<close>

fun extend_last_two :: "nat \<Rightarrow> 'a list \<Rightarrow> 'a list" where
  "extend_last_two 0 new_stitches = new_stitches"
| "extend_last_two (Suc r) new_stitches =
     extend_last_two r (new_stitches @ drop (length new_stitches - 2) new_stitches)"

text \<open>
  The \<^verbatim>\<open>for stitch in stitches\<close> loop, with the cyclic position in \<^verbatim>\<open>repeats\<close> and the
  accumulated \<^verbatim>\<open>new_stitches\<close> as state. \<^verbatim>\<open>repeats[repeat_list_pos]\<close> raises IndexError
  out of range (an empty \<^verbatim>\<open>repeats\<close>); \<^verbatim>\<open>range(r)\<close> of a negative \<^verbatim>\<open>r\<close> is empty.
\<close>

fun bean_loop :: "'a list \<Rightarrow> int list \<Rightarrow> nat \<Rightarrow> 'a list \<Rightarrow> error + 'a list" where
  "bean_loop [] repeats repeat_list_pos new_stitches = Inr new_stitches"
| "bean_loop (stitch # rest) repeats repeat_list_pos new_stitches =
     (if repeat_list_pos < length repeats
      then bean_loop rest repeats
             (if repeat_list_pos + 1 = length repeats then 0 else repeat_list_pos + 1)
             (extend_last_two (nat (repeats ! repeat_list_pos)) (new_stitches @ [stitch]))
      else Inl IndexError)"

definition bean_stitch :: "'a list \<Rightarrow> int list \<Rightarrow> error + 'a list" where
  "bean_stitch stitches repeats =
     (if length stitches < 2 then Inr stitches
      else bean_loop stitches repeats 0 [stitches ! 0])"

subsection \<open>Points, vectors and the geometry library\<close>

text \<open>
  Modelled from the spec: the \<^verbatim>\<open>Point\<close> class of \<^verbatim>\<open>lib/utils/geometry.py\<close> is not among
  the sources. The spec gives it as an ordered pair of real coordinates with subtraction,
  addition of a scaled vector and exact equality; a vector has a scalar length and a unit
  direction, which is undefined when the length is zero (the division \<^verbatim>\<open>1.0 / length\<close>
  raises there). The definitions of this part compute in exact arithmetic on real
  numbers; the same functions with the rounding of floating-point arithmetic follow
  further down.
\<close>

type_synonym point = "real \<times> real"

definition point_sub :: "point \<Rightarrow> point \<Rightarrow> point" where
  "point_sub p q = (fst p - fst q, snd p - snd q)"

definition point_add :: "point \<Rightarrow> point \<Rightarrow> point" where
  "point_add p q = (fst p + fst q, snd p + snd q)"

definition point_mul :: "real \<Rightarrow> point \<Rightarrow> point" where
  "point_mul c p = (c * fst p, c * snd p)"

definition point_length :: "point \<Rightarrow> real" where
  "point_length v = sqrt ((fst v)\<^sup>2 + (snd v)\<^sup>2)"

definition point_unit :: "point \<Rightarrow> error + point" where
  "point_unit v =
     (if point_length v = 0 then Inl ZeroDivisionError
      else Inr (point_mul (1 / point_length v) v))"

text \<open>
  The calls into the geometry library (shapely): the distance of two points, the length
  of a line string, and \<^verbatim>\<open>LineString([a, b]).interpolate(x, normalized)\<close>, which measures
  a negative distance back from the end of the line and clamps a distance outside the
  line to the nearer end.
\<close>

definition point_distance :: "point \<Rightarrow> point \<Rightarrow> real" where
  "point_distance a b = point_length (point_sub b a)"

fun linestring_length :: "point list \<Rightarrow> real" where
  "linestring_length (p # q # rest) = point_distance p q + linestring_length (q # rest)"
| "linestring_length [p] = 0"
| "linestring_length [] = 0"

definition interpolate :: "point \<Rightarrow> point \<Rightarrow> real \<Rightarrow> bool \<Rightarrow> point" where
  "interpolate a b x normalized =
     (let len = point_distance a b;
          d = (if normalized then x * len else x);
          forward = (if d < 0 then len + d else d)
      in if forward \<le> 0 then a
         else if len \<le> forward then b
         else point_add a (point_mul (forward / len) (point_sub b a)))"

subsection \<open>The pseudo-random generator\<close>

text \<open>
  Modelled from the spec: the module \<^verbatim>\<open>lib/utils/prng.py\<close> is not among the sources. The
  spec gives it as a deterministic function of a seed and discriminator strings that
  produces a single float in \<open>[0, 1)\<close>, a sequence of \<open>n\<close> such floats, or an unbounded
  sequence of them. The three entry points the splitters call are the fields of a record,
  so that every theorem holds for any generator; \<open>prng_ok\<close> is the spec's contract.
\<close>

record prng =
  uniformFloats :: "string list \<Rightarrow> nat \<Rightarrow> real"
  nUniformFloats :: "nat \<Rightarrow> string \<Rightarrow> real list"
  iterUniformFloats :: "string \<Rightarrow> nat \<Rightarrow> real"

definition unit_interval :: "real \<Rightarrow> bool" where
  "unit_interval u = (0 \<le> u \<and> u < 1)"

definition prng_ok :: "prng \<Rightarrow> bool" where
  "prng_ok G =
     ((\<forall>args i. unit_interval (uniformFloats G args i)) \<and>
      (\<forall>n seed. length (nUniformFloats G n seed) = n \<and> list_all unit_interval (nUniformFloats G n seed)) \<and>
      (\<forall>seed i. unit_interval (iterUniformFloats G seed i)))"

subsection \<open>The segment splitters\<close>

text \<open>
  \<^verbatim>\<open>split_segment_even_n\<close>: \<^verbatim>\<open>random_seed\<close> is \<^verbatim>\<open>None\<close> or a seed string; the numpy
  arithmetic on \<^verbatim>\<open>splits\<close> is elementwise, on the \<^verbatim>\<open>len(splits)\<close> draws the generator is
  asked for.
\<close>

definition split_segment_even_n ::
  "prng \<Rightarrow> point \<Rightarrow> point \<Rightarrow> int \<Rightarrow> real \<Rightarrow> string option \<Rightarrow> point list" where
  "split_segment_even_n G a b segments jitter_sigma random_seed =
     (if segments \<le> 1 then []
      else
        let splits = map (\<lambda>k. real_of_int k / real_of_int segments) [1..segments - 1];
            splits' =
              (case random_seed of
                 None \<Rightarrow> splits
               | Some seed \<Rightarrow>
                   let jitters = map (\<lambda>u. u * 2 - 1) (nUniformFloats G (length splits) seed)
                   in map2 (\<lambda>s j. s + j * (jitter_sigma / real_of_int segments)) splits jitters)
        in map (\<lambda>x. interpolate a b x True) (sort splits'))"

text \<open>\<^verbatim>\<open>split_segment_even_dist\<close>: the division \<^verbatim>\<open>distance / max_length\<close> raises at zero.\<close>

definition split_segment_even_dist ::
  "prng \<Rightarrow> point \<Rightarrow> point \<Rightarrow> real \<Rightarrow> real \<Rightarrow> string option \<Rightarrow> error + point list" where
  "split_segment_even_dist G a b max_length jitter_sigma random_seed =
     (let distance = point_distance a b
      in if max_length = 0 then Inl ZeroDivisionError
         else
           let segments = \<lceil>distance / max_length\<rceil>
           in Inr (split_segment_even_n G a b segments jitter_sigma random_seed))"

text \<open>
  \<^verbatim>\<open>split_segment_random_phase\<close>. The loop draws from an unbounded generator and ends
  only at its \<^verbatim>\<open>break\<close>, so it is a partial function: \<open>None\<close> is a loop that never ends.
  \<open>random_phase_splits\<close> is the list \<^verbatim>\<open>splits\<close> of offsets along the line, which the last
  line of the function turns into points.
\<close>

partial_function (option) random_phase_loop ::
  "(nat \<Rightarrow> real) \<Rightarrow> real \<Rightarrow> real \<Rightarrow> real \<Rightarrow> nat \<Rightarrow> real \<Rightarrow> real list \<Rightarrow> real list option" where
  "random_phase_loop xs len length_sigma distance i progress splits =
     (if distance \<le> progress + len * (1 + length_sigma * (xs i - 1 / 2) * 2)
      then Some splits
      else random_phase_loop xs len length_sigma distance (Suc i)
             (progress + len * (1 + length_sigma * (xs i - 1 / 2) * 2))
             (splits @ [progress + len * (1 + length_sigma * (xs i - 1 / 2) * 2)]))"

definition random_phase_splits ::
  "prng \<Rightarrow> point \<Rightarrow> point \<Rightarrow> real \<Rightarrow> real \<Rightarrow> string \<Rightarrow> real list option" where
  "random_phase_splits G a b len length_sigma random_seed =
     (let progress = len * uniformFloats G [random_seed, ''phase''] 0;
          distance = linestring_length [a, b]
      in if distance \<le> progress then Some []
         else random_phase_loop (iterUniformFloats G random_seed) len length_sigma distance 0
                progress [progress])"

definition split_segment_random_phase ::
  "prng \<Rightarrow> point \<Rightarrow> point \<Rightarrow> real \<Rightarrow> real \<Rightarrow> string \<Rightarrow> point list option" where
  "split_segment_random_phase G a b len length_sigma random_seed =
     map_option (map (\<lambda>x. interpolate a b x False))
       (random_phase_splits G a b len length_sigma random_seed)"

subsection \<open>\<^verbatim>\<open>running_stitch\<close>\<close>

text \<open>
  The innermost loop, \<^verbatim>\<open>while distance < segment_length\<close>: it appends a stitch and moves
  the threshold on by \<^verbatim>\<open>actual_stitch_length\<close>. With a step that is not positive it never
  ends, so it is a partial function returning the final \<^verbatim>\<open>distance\<close> and \<^verbatim>\<open>output\<close>.
\<close>

partial_function (option) stitch_while ::
  "real \<Rightarrow> point \<Rightarrow> point \<Rightarrow> real \<Rightarrow> real \<Rightarrow> point list \<Rightarrow> (real \<times> point list) option" where
  "stitch_while actual_stitch_length segment_start segment_direction segment_length distance output =
     (if distance < segment_length
      then stitch_while actual_stitch_length segment_start segment_direction segment_length
             (distance + actual_stitch_length)
             (output @ [point_add segment_start (point_mul distance segment_direction)])
      else Some (distance, output))"

text \<open>
  The loop \<^verbatim>\<open>for segment_end in section[1:]\<close>, with \<^verbatim>\<open>segment_start\<close>, \<^verbatim>\<open>distance\<close> and
  \<^verbatim>\<open>output\<close> as state.
\<close>

fun walk_segments ::
  "real \<Rightarrow> point \<Rightarrow> point list \<Rightarrow> real \<Rightarrow> point list \<Rightarrow> (error + point list) option" where
  "walk_segments actual_stitch_length segment_start [] distance output = Some (Inr output)"
| "walk_segments actual_stitch_length segment_start (segment_end # rest) distance output =
     (let segment = point_sub segment_end segment_start;
          segment_length = point_length segment
      in if distance < segment_length
         then (case point_unit segment of
                 Inl e \<Rightarrow> Some (Inl e)
               | Inr segment_direction \<Rightarrow>
                   (case stitch_while actual_stitch_length segment_start segment_direction
                           segment_length distance output of
                      None \<Rightarrow> None
                    | Some (distance', output') \<Rightarrow>
                        walk_segments actual_stitch_length segment_end rest
                          (distance' - segment_length) output'))
         else walk_segments actual_stitch_length segment_end rest
                (distance - segment_length) output)"

text \<open>
  The body of the loop over the sections: the continuity check on \<^verbatim>\<open>section[0]\<close>, then
  the even split of the section when it is longer than \<^verbatim>\<open>stitch_length\<close>. Both divisions
  raise at zero.
\<close>

definition stitch_section ::
  "point list \<Rightarrow> real \<Rightarrow> point list \<Rightarrow> (error + point list) option" where
  "stitch_section section stitch_length output =
     (case section of
        [] \<Rightarrow> Some (Inl IndexError)
      | section0 # section_rest \<Rightarrow>
          let output1 = (if output = [] \<or> last output \<noteq> section0
                         then output @ [section0] else output);
              section_length = linestring_length section
          in if stitch_length < section_length
             then if stitch_length = 0 then Some (Inl ZeroDivisionError)
                  else
                    let num_stitches = \<lceil>section_length / stitch_length\<rceil>
                    in if num_stitches = 0 then Some (Inl ZeroDivisionError)
                       else
                         let actual_stitch_length = section_length / real_of_int num_stitches
                         in walk_segments actual_stitch_length section0 section_rest
                              actual_stitch_length output1
             else Some (Inr output1))"

text \<open>
  The loop over \<^verbatim>\<open>zip(important_point_indices[:-1], important_point_indices[1:])\<close>;
  \<^verbatim>\<open>points[start:end + 1]\<close> is the section.
\<close>

fun stitch_sections ::
  "point list \<Rightarrow> real \<Rightarrow> (nat \<times> nat) list \<Rightarrow> point list \<Rightarrow> (error + point list) option" where
  "stitch_sections points stitch_length [] output = Some (Inr output)"
| "stitch_sections points stitch_length ((start, fin) # rest) output =
     (case stitch_section (take (fin + 1 - start) (drop start points)) stitch_length output of
        None \<Rightarrow> None
      | Some (Inl e) \<Rightarrow> Some (Inl e)
      | Some (Inr output') \<Rightarrow> stitch_sections points stitch_length rest output')"

text \<open>
  \<^verbatim>\<open>running_stitch\<close>. The simplification of the path belongs to the geometry library and
  is a parameter \<open>simplify\<close>. \<^verbatim>\<open>output[-1]\<close> raises IndexError on an empty \<^verbatim>\<open>output\<close>.
\<close>

definition important_point_indices :: "point list \<Rightarrow> point list \<Rightarrow> nat list" where
  "important_point_indices points simplified =
     filter (\<lambda>i. points ! i \<in> set simplified) [0..<length points]"

definition running_stitch ::
  "(point list \<Rightarrow> real \<Rightarrow> point list) \<Rightarrow> point list \<Rightarrow> real \<Rightarrow> real \<Rightarrow> (error + point list) option" where
  "running_stitch simplify points stitch_length tolerance =
     (if length points < 2 then Some (Inr [])
      else
        let simplified = simplify points tolerance;
            indices = important_point_indices points simplified
        in case stitch_sections points stitch_length (zip (butlast indices) (tl indices)) [] of
             None \<Rightarrow> None
           | Some (Inl e) \<Rightarrow> Some (Inl e)
           | Some (Inr output) \<Rightarrow>
               if output = [] then Some (Inl IndexError)
               else if last points \<noteq> last output then Some (Inr (output @ [last points]))
               else Some (Inr output))"

text \<open>
  The contract of the simplifier (the spec's interface of the geometry library): the
  simplified path always retains the first and the last point of the input.
\<close>

definition simplify_ok :: "(point list \<Rightarrow> real \<Rightarrow> point list) \<Rightarrow> bool" where
  "simplify_ok simplify =
     (\<forall>points tolerance. points \<noteq> [] \<longrightarrow>
        hd points \<in> set (simplify points tolerance) \<and>
        last points \<in> set (simplify points tolerance))"

subsection \<open>Floating-point arithmetic\<close>

text \<open>
  Python's floats are IEEE binary64 numbers: an arithmetic operation returns its exact
  result rounded to the nearest representable number, ties to the even significand.
  \<open>binary64\<close> is that rounding, for a result in the range of the finite numbers (the
  subnormal ones included; overflow to infinity and NaN are not modelled).
\<close>

definition round_half_even :: "real \<Rightarrow> int" where
  "round_half_even y =
     (let f = \<lfloor>y\<rfloor>
      in if y - real_of_int f < 1 / 2 then f
         else if 1 / 2 < y - real_of_int f then f + 1
         else if even f then f else f + 1)"

definition binary64 :: "real \<Rightarrow> real" where
  "binary64 x =
     (if x = 0 then 0
      else
        let e = max \<lfloor>log 2 \<bar>x\<bar>\<rfloor> (- 1022);
            ulp = 2 powr (real_of_int e - 52)
        in real_of_int (round_half_even (x / ulp)) * ulp)"

subsection \<open>The functions with rounded arithmetic\<close>

text \<open>
  The definitions above compute in exact arithmetic. The definitions of this subsection,
  with the suffix \<open>_fl\<close>, are the same functions with a rounding \<open>rnd\<close> applied to the result
  of every arithmetic operation, in the order in which the source evaluates them;
  with \<open>rnd = binary64\<close> they compute what the code computes. First the operations of
  \<^verbatim>\<open>Point\<close> (\<^verbatim>\<open>length\<close> is \<^verbatim>\<open>math.sqrt(math.pow(x, 2.0) + math.pow(y, 2.0))\<close>, \<^verbatim>\<open>unit\<close> is
  \<^verbatim>\<open>mul(1.0 / length)\<close>).
\<close>

definition point_sub_fl :: "(real \<Rightarrow> real) \<Rightarrow> point \<Rightarrow> point \<Rightarrow> point" where
  "point_sub_fl rnd p q = (rnd (fst p - fst q), rnd (snd p - snd q))"

definition point_add_fl :: "(real \<Rightarrow> real) \<Rightarrow> point \<Rightarrow> point \<Rightarrow> point" where
  "point_add_fl rnd p q = (rnd (fst p + fst q), rnd (snd p + snd q))"

definition point_mul_fl :: "(real \<Rightarrow> real) \<Rightarrow> real \<Rightarrow> point \<Rightarrow> point" where
  "point_mul_fl rnd c p = (rnd (fst p * c), rnd (snd p * c))"

definition point_length_fl :: "(real \<Rightarrow> real) \<Rightarrow> point \<Rightarrow> real" where
  "point_length_fl rnd v = rnd (sqrt (rnd (rnd ((fst v)\<^sup>2) + rnd ((snd v)\<^sup>2))))"

definition point_unit_fl :: "(real \<Rightarrow> real) \<Rightarrow> point \<Rightarrow> error + point" where
  "point_unit_fl rnd v =
     (if point_length_fl rnd v = 0 then Inl ZeroDivisionError
      else Inr (point_mul_fl rnd (rnd (1 / point_length_fl rnd v)) v))"

text \<open>
  The geometry library: the distance of two points is \<^verbatim>\<open>sqrt(dx * dx + dy * dy)\<close>, the length
  of a line string adds the lengths of its segments to a running total, and the
  interpolation computes the fraction of the segment and then
  \<^verbatim>\<open>(b.x - a.x) * frac + a.x\<close>, returning an end of the segment when the fraction is outside
  \<open>(0, 1)\<close>.
\<close>

definition segment_length_fl :: "(real \<Rightarrow> real) \<Rightarrow> point \<Rightarrow> point \<Rightarrow> real" where
  "segment_length_fl rnd a b =
     (let dx = rnd (fst b - fst a); dy = rnd (snd b - snd a)
      in rnd (sqrt (rnd (rnd (dx * dx) + rnd (dy * dy)))))"

fun linestring_length_from :: "(real \<Rightarrow> real) \<Rightarrow> real \<Rightarrow> point list \<Rightarrow> real" where
  "linestring_length_from rnd len (p # q # rest) =
     linestring_length_from rnd (rnd (len + segment_length_fl rnd p q)) (q # rest)"
| "linestring_length_from rnd len [p] = len"
| "linestring_length_from rnd len [] = len"

definition linestring_length_fl :: "(real \<Rightarrow> real) \<Rightarrow> point list \<Rightarrow> real" where
  "linestring_length_fl rnd ps = linestring_length_from rnd 0 ps"

definition interpolate_fl :: "(real \<Rightarrow> real) \<Rightarrow> point \<Rightarrow> point \<Rightarrow> real \<Rightarrow> bool \<Rightarrow> point" where
  "interpolate_fl rnd a b x normalized =
     (let len = linestring_length_fl rnd [a, b];
          d = (if normalized then rnd (x * len) else x);
          forward = (if d < 0 then rnd (len + d) else d);
          seglen = segment_length_fl rnd a b
      in if forward \<le> 0 then a
         else if forward < rnd (0 + seglen)
         then
           let frac = rnd (rnd (forward - 0) / seglen)
           in if frac \<le> 0 then a
              else if 1 \<le> frac then b
              else (rnd (rnd (rnd (fst b - fst a) * frac) + fst a),
                    rnd (rnd (rnd (snd b - snd a) * frac) + snd a))
         else b)"



partial_function (option) random_phase_loop_fl ::
  "(real \<Rightarrow> real) \<Rightarrow> (nat \<Rightarrow> real) \<Rightarrow> real \<Rightarrow> real \<Rightarrow> real \<Rightarrow> nat \<Rightarrow> real \<Rightarrow> real list
     \<Rightarrow> real list option" where
  "random_phase_loop_fl rnd xs len length_sigma distance i progress splits =
     (if distance \<le> rnd (progress + rnd (len * rnd (1 + rnd (rnd (length_sigma * rnd (xs i - 1 / 2)) * 2))))
      then Some splits
      else random_phase_loop_fl rnd xs len length_sigma distance (Suc i)
             (rnd (progress + rnd (len * rnd (1 + rnd (rnd (length_sigma * rnd (xs i - 1 / 2)) * 2)))))
             (splits @
              [rnd (progress + rnd (len * rnd (1 + rnd (rnd (length_sigma * rnd (xs i - 1 / 2)) * 2))))]))"

definition random_phase_splits_fl ::
  "(real \<Rightarrow> real) \<Rightarrow> prng \<Rightarrow> point \<Rightarrow> point \<Rightarrow> real \<Rightarrow> real \<Rightarrow> string \<Rightarrow> real list option" where
  "random_phase_splits_fl rnd G a b len length_sigma random_seed =
     (let progress = rnd (len * uniformFloats G [random_seed, ''phase''] 0);
          distance = linestring_length_fl rnd [a, b]
      in if distance \<le> progress then Some []
         else random_phase_loop_fl rnd (iterUniformFloats G random_seed) len length_sigma distance 0
                progress [progress])"

definition split_segment_random_phase_fl ::
  "(real \<Rightarrow> real) \<Rightarrow> prng \<Rightarrow> point \<Rightarrow> point \<Rightarrow> real \<Rightarrow> real \<Rightarrow> string \<Rightarrow> point list option" where
  "split_segment_random_phase_fl rnd G a b len length_sigma random_seed =
     map_option (map (\<lambda>x. interpolate_fl rnd a b x False))
       (random_phase_splits_fl rnd G a b len length_sigma random_seed)"

text \<open>\<^verbatim>\<open>running_stitch\<close> and its loops.\<close>

partial_function (option) stitch_while_fl ::
  "(real \<Rightarrow> real) \<Rightarrow> real \<Rightarrow> point \<Rightarrow> point \<Rightarrow> real \<Rightarrow> real \<Rightarrow> point list
     \<Rightarrow> (real \<times> point list) option" where
  "stitch_while_fl rnd actual_stitch_length segment_start segment_direction segment_length
       distance output =
     (if distance < segment_length
      then stitch_while_fl rnd actual_stitch_length segment_start segment_direction segment_length
             (rnd (distance + actual_stitch_length))
             (output @ [point_add_fl rnd segment_start (point_mul_fl rnd distance segment_direction)])
      else Some (distance, output))"

fun walk_segments_fl ::
  "(real \<Rightarrow> real) \<Rightarrow> real \<Rightarrow> point \<Rightarrow> point list \<Rightarrow> real \<Rightarrow> point list
     \<Rightarrow> (error + point list) option" where
  "walk_segments_fl rnd actual_stitch_length segment_start [] distance output = Some (Inr output)"
| "walk_segments_fl rnd actual_stitch_length segment_start (segment_end # rest) distance output =
     (let segment = point_sub_fl rnd segment_end segment_start;
          segment_length = point_length_fl rnd segment
      in if distance < segment_length
         then (case point_unit_fl rnd segment of
                 Inl e \<Rightarrow> Some (Inl e)
               | Inr segment_direction \<Rightarrow>
                   (case stitch_while_fl rnd actual_stitch_length segment_start segment_direction
                           segment_length distance output of
                      None \<Rightarrow> None
                    | Some (distance', output') \<Rightarrow>
                        walk_segments_fl rnd actual_stitch_length segment_end rest
                          (rnd (distance' - segment_length)) output'))
         else walk_segments_fl rnd actual_stitch_length segment_end rest
                (rnd (distance - segment_length)) output)"

definition stitch_section_fl ::
  "(real \<Rightarrow> real) \<Rightarrow> point list \<Rightarrow> real \<Rightarrow> point list \<Rightarrow> (error + point list) option" where
  "stitch_section_fl rnd section stitch_length output =
     (case section of
        [] \<Rightarrow> Some (Inl IndexError)
      | section0 # section_rest \<Rightarrow>
          let output1 = (if output = [] \<or> last output \<noteq> section0
                         then output @ [section0] else output);
              section_length = linestring_length_fl rnd section
          in if stitch_length < section_length
             then if stitch_length = 0 then Some (Inl ZeroDivisionError)
                  else
                    let num_stitches = \<lceil>rnd (section_length / stitch_length)\<rceil>
                    in if num_stitches = 0 then Some (Inl ZeroDivisionError)
                       else
                         let actual_stitch_length =
                               rnd (section_length / rnd (real_of_int num_stitches))
                         in walk_segments_fl rnd actual_stitch_length section0 section_rest
                              actual_stitch_length output1
             else Some (Inr output1))"

fun stitch_sections_fl ::
  "(real \<Rightarrow> real) \<Rightarrow> point list \<Rightarrow> real \<Rightarrow> (nat \<times> nat) list \<Rightarrow> point list
     \<Rightarrow> (error + point list) option" where
  "stitch_sections_fl rnd points stitch_length [] output = Some (Inr output)"
| "stitch_sections_fl rnd points stitch_length ((start, fin) # rest) output =
     (case stitch_section_fl rnd (take (fin + 1 - start) (drop start points)) stitch_length output of
        None \<Rightarrow> None
      | Some (Inl e) \<Rightarrow> Some (Inl e)
      | Some (Inr output') \<Rightarrow> stitch_sections_fl rnd points stitch_length rest output')"

definition running_stitch_fl ::
  "(real \<Rightarrow> real) \<Rightarrow> (point list \<Rightarrow> real \<Rightarrow> point list) \<Rightarrow> point list \<Rightarrow> real \<Rightarrow> real
     \<Rightarrow> (error + point list) option" where
  "running_stitch_fl rnd simplify points stitch_length tolerance =
     (if length points < 2 then Some (Inr [])
      else
        let simplified = simplify points tolerance;
            indices = important_point_indices points simplified
        in case stitch_sections_fl rnd points stitch_length (zip (butlast indices) (tl indices)) [] of
             None \<Rightarrow> None
           | Some (Inl e) \<Rightarrow> Some (Inl e)
           | Some (Inr output) \<Rightarrow>
               if output = [] then Some (Inl IndexError)
               else if last points \<noteq> last output then Some (Inr (output @ [last points]))
               else Some (Inr output))"

subsection \<open>Notions the properties are stated with\<close>

text \<open>
  The point at the fraction \<open>t\<close> of the way from \<open>a\<close> to \<open>b\<close>: the normalized position
  \<open>t\<close> along the line \<open>a\<rightarrow>b\<close>.
\<close>

definition point_along :: "point \<Rightarrow> point \<Rightarrow> real \<Rightarrow> point" where
  "point_along a b t = point_add a (point_mul t (point_sub b a))"

text \<open>
  The list \<^verbatim>\<open>splits\<close> of \<^verbatim>\<open>split_segment_even_n\<close> after the jitter has been added, before it
  is sorted: the \<^verbatim>\<open>Some seed\<close> branch of the function, named for the proofs.
\<close>

definition jittered_splits :: "prng \<Rightarrow> int \<Rightarrow> real \<Rightarrow> string \<Rightarrow> real list" where
  "jittered_splits G segments jitter_sigma seed =
     map2 (\<lambda>s j. s + j * (jitter_sigma / real_of_int segments))
       (map (\<lambda>k. real_of_int k / real_of_int segments) [1..segments - 1])
       (map (\<lambda>u. u * 2 - 1)
          (nUniformFloats G (length (map (\<lambda>k. real_of_int k / real_of_int segments) [1..segments - 1])) seed))"

text \<open>
  A list of points is strictly interior to the segment \<open>a\<rightarrow>b\<close> and strictly increasing
  along it: every point lies on the segment, is neither \<open>a\<close> nor \<open>b\<close>, and the arc-length
  positions (the distances from \<open>a\<close>) strictly increase along the list.
\<close>

definition interior_increasing :: "point \<Rightarrow> point \<Rightarrow> point list \<Rightarrow> bool" where
  "interior_increasing a b pts =
     (list_all (\<lambda>p. p \<noteq> a \<and> p \<noteq> b \<and>
                     point_distance a p + point_distance p b = point_distance a b) pts \<and>
      sorted_wrt (<) (map (point_distance a) pts))"

text \<open>
  A generator that meets the contract \<open>prng_ok\<close>, for evaluating the splitters at concrete
  inputs.
\<close>

definition example_prng :: prng where
  "example_prng =
     \<lparr>uniformFloats = (\<lambda>args i. 1 / 2),
      nUniformFloats = (\<lambda>n seed. map (\<lambda>i. if even i then 3 / 4 else 1 / 4) [0..<n]),
      iterUniformFloats = (\<lambda>seed i. 1 / 2)\<rparr>"

text \<open>
  The point at arc length \<open>s\<close> along a polyline, measured from its first point: the
  position on the segment that contains \<open>s\<close>, and the last point once \<open>s\<close> reaches the
  length of the polyline.
\<close>

fun point_at :: "point list \<Rightarrow> real \<Rightarrow> point" where
  "point_at (p # q # rest) s =
     (if s < point_distance p q then point_along p q (s / point_distance p q)
      else point_at (q # rest) (s - point_distance p q))"
| "point_at [p] s = p"
| "point_at [] s = (0, 0)"

text \<open>
  The number of passes of the loop \<^verbatim>\<open>while distance < segment_length\<close> when the step is
  positive: the number of thresholds \<open>distance + j * actual_stitch_length\<close> below
  \<open>segment_length\<close>.
\<close>

definition count_steps :: "real \<Rightarrow> real \<Rightarrow> real \<Rightarrow> nat" where
  "count_steps distance actual_stitch_length segment_length =
     (if distance < segment_length
      then nat \<lceil>(segment_length - distance) / actual_stitch_length\<rceil> else 0)"

text \<open>
  Two simplifiers that meet the contract \<open>simplify_ok\<close>, for evaluating \<^verbatim>\<open>running_stitch\<close>
  at concrete inputs: one keeps only the two ends of the path (what the library returns
  on a straight path), one keeps every point (what it returns when every vertex is a
  corner).
\<close>

definition keep_ends :: "point list \<Rightarrow> real \<Rightarrow> point list" where
  "keep_ends points tolerance = (case points of [] \<Rightarrow> [] | p # rest \<Rightarrow> [p, last points])"

definition keep_all :: "point list \<Rightarrow> real \<Rightarrow> point list" where
  "keep_all points tolerance = points"

section \<open>Properties of \<^verbatim>\<open>bean_stitch\<close>\<close>

lemma length_extend_last_two:
  "2 \<le> length xs \<Longrightarrow> length (extend_last_two r xs) = length xs + 2 * r"
  by (induction r arbitrary: xs) auto

lemma prefix_extend_last_two: "prefix xs (extend_last_two r xs)"
proof (induction r arbitrary: xs)
  case 0
  show ?case by simp
next
  case (Suc r)
  have "prefix xs (xs @ drop (length xs - 2) xs)" by simp
  also have "prefix \<dots> (extend_last_two r (xs @ drop (length xs - 2) xs))" by (rule Suc.IH)
  finally show ?case by simp
qed

lemma extend_last_two_same:
  "extend_last_two r (replicate (Suc (Suc k)) a) = replicate (Suc (Suc k) + 2 * r) a"
proof (induction r arbitrary: k)
  case 0
  show ?case by simp
next
  case (Suc r)
  have "replicate (Suc (Suc k)) a @ drop (length (replicate (Suc (Suc k)) a) - 2) (replicate (Suc (Suc k)) a)
        = replicate (Suc (Suc (k + 2))) a"
    by (simp add: replicate_add [symmetric] del: replicate_Suc)
  then show ?case using Suc.IH [of "k + 2"] by simp
qed

lemma wrap_pos_mod:
  "pos < n \<Longrightarrow> (if pos + 1 = n then 0 else pos + 1) = (pos + 1) mod (n::nat)"
  by auto

lemma bean_loop_length:
  "pos < length repeats \<Longrightarrow> 1 \<le> length new \<Longrightarrow>
   \<exists>out. bean_loop xs repeats pos new = Inr out \<and>
     length out = length new +
       (\<Sum>i<length xs. 1 + 2 * nat (repeats ! ((pos + i) mod length repeats)))"
proof (induction xs arbitrary: pos new)
  case Nil
  show ?case by simp
next
  case (Cons x xs)
  let ?n = "length repeats"
  let ?pos' = "if pos + 1 = ?n then 0 else pos + 1"
  let ?new' = "extend_last_two (nat (repeats ! pos)) (new @ [x])"
  have pos': "?pos' = (pos + 1) mod ?n" using Cons.prems(1) by (rule wrap_pos_mod)
  have lt: "?pos' < ?n" using Cons.prems(1) by auto
  have len': "length ?new' = length new + 1 + 2 * nat (repeats ! pos)"
    using Cons.prems(2) by (simp add: length_extend_last_two)
  from Cons.IH [OF lt, of ?new'] len' obtain out where
    out: "bean_loop xs repeats ?pos' ?new' = Inr out"
    and lout: "length out = length ?new' +
       (\<Sum>i<length xs. 1 + 2 * nat (repeats ! ((?pos' + i) mod ?n)))"
    by auto
  have shift: "\<And>i. (?pos' + i) mod ?n = (pos + Suc i) mod ?n"
    unfolding pos' by (simp add: mod_add_left_eq)
  define f where "f i = 1 + 2 * nat (repeats ! ((pos + i) mod ?n))" for i
  have "(\<Sum>i<Suc (length xs). f i) = f 0 + (\<Sum>i<length xs. f (Suc i))"
    by (rule sum.lessThan_Suc_shift)
  moreover have "f 0 = 1 + 2 * nat (repeats ! pos)"
    using Cons.prems(1) by (simp add: f_def)
  ultimately have "(\<Sum>i<length (x # xs). 1 + 2 * nat (repeats ! ((pos + i) mod ?n)))
      = (1 + 2 * nat (repeats ! pos)) + (\<Sum>i<length xs. 1 + 2 * nat (repeats ! ((pos + Suc i) mod ?n)))"
    by (simp only: f_def list.size add_Suc_right add_0_right One_nat_def [symmetric] Suc_eq_plus1 [symmetric])
  moreover have "bean_loop (x # xs) repeats pos new = bean_loop xs repeats ?pos' ?new'"
    using Cons.prems(1) by simp
  ultimately show ?case using out lout len' shift by (simp del: bean_loop.simps)
qed

lemma bean_loop_prefix:
  "bean_loop xs repeats pos new = Inr out \<Longrightarrow> prefix new out"
proof (induction xs arbitrary: pos new)
  case Nil
  then show ?case by simp
next
  case (Cons x xs)
  from Cons.prems have lt: "pos < length repeats" by (simp split: if_splits)
  let ?new' = "extend_last_two (nat (repeats ! pos)) (new @ [x])"
  from Cons.prems lt have "prefix ?new' out" by (auto intro: Cons.IH)
  moreover have "prefix (new @ [x]) ?new'" by (rule prefix_extend_last_two)
  moreover have "prefix new (new @ [x])" by simp
  ultimately show ?case by (meson prefix_order.trans)
qed


text \<open>
  C1. The claim: with \<open>repeats = [0]\<close>, \<^verbatim>\<open>bean_stitch\<close> returns a sequence of at least two
  points unchanged. The code seeds \<^verbatim>\<open>new_stitches\<close> with \<^verbatim>\<open>stitches[0]\<close> and then loops over
  all of \<^verbatim>\<open>stitches\<close>, the first one included, so the first point is emitted twice: on the
  two-point input below the result has three points.
\<close>

theorem bean_stitch_zero_repeats_duplicates_first:
  "bean_stitch [(0, 0), (1, 0) :: point] [0] = Inr [(0, 0), (0, 0), (1, 0)]"
  by (simp add: bean_stitch_def)

text \<open>
  C8. A sequence of fewer than two points is returned unchanged. Otherwise, with a
  non-empty pattern, the call returns, and the length of its result is one (the seed)
  plus, for every input stitch \<open>i\<close>, one (its own copy) plus twice its cyclic repeat count
  \<open>repeats[i mod |repeats|]\<close> (a negative count repeats nothing, as \<^verbatim>\<open>range\<close> does).
\<close>

theorem bean_stitch_length:
  "(length stitches < 2 \<longrightarrow> bean_stitch stitches repeats = Inr stitches) \<and>
   (2 \<le> length stitches \<and> repeats \<noteq> [] \<longrightarrow>
      (\<exists>out. bean_stitch stitches repeats = Inr out \<and>
         length out =
           1 + (\<Sum>i<length stitches. 1 + 2 * nat (repeats ! (i mod length repeats)))))"
proof (intro conjI impI)
  assume "length stitches < 2"
  then show "bean_stitch stitches repeats = Inr stitches" by (simp add: bean_stitch_def)
next
  assume h: "2 \<le> length stitches \<and> repeats \<noteq> []"
  then have "0 < length repeats" by simp
  from bean_loop_length [OF this, of "[stitches ! 0]" stitches]
  show "\<exists>out. bean_stitch stitches repeats = Inr out \<and>
         length out =
           1 + (\<Sum>i<length stitches. 1 + 2 * nat (repeats ! (i mod length repeats)))"
    using h by (simp add: bean_stitch_def)
qed

theorem bean_stitch_length_witness:
  "bean_stitch [] [1, 0] = Inr ([] :: point list) \<and>
   (\<exists>out. bean_stitch [(0, 0), (1, 0), (2, 0) :: point] [1, 0] = Inr out \<and> length out = 8)"
proof -
  have "(\<Sum>i<length [(0, 0), (1, 0), (2, 0) :: point].
           1 + 2 * nat ([1, 0] ! (i mod length [1, 0 :: int]))) = 7"
    by (simp add: lessThan_Suc eval_nat_numeral)
  then show ?thesis
    using bean_stitch_length [of "[] :: point list" "[1, 0]"]
      bean_stitch_length [of "[(0, 0), (1, 0), (2, 0) :: point]" "[1, 0]"]
    by simp
qed

text \<open>
  C10. For at least two stitches and a non-empty pattern the call returns, and its
  result begins with \<open>2 + 2 * repeats[0]\<close> copies of the first input stitch: the seed, the
  copy the loop appends, and the two points each repeat appends again. In particular
  the first two points of the result are both \<^verbatim>\<open>stitches[0]\<close>.
\<close>

theorem bean_stitch_starts_with_first_twice:
  assumes "2 \<le> length stitches" and "repeats \<noteq> []"
  shows "\<exists>out. bean_stitch stitches repeats = Inr out \<and>
           out ! 0 = stitches ! 0 \<and> out ! 1 = stitches ! 0 \<and>
           take (2 + 2 * nat (repeats ! 0)) out =
             replicate (2 + 2 * nat (repeats ! 0)) (stitches ! 0)"
proof -
  from assms(1) obtain x rest where st: "stitches = x # rest"
    by (cases stitches) auto
  let ?r = "nat (repeats ! 0)"
  let ?pos = "if 0 + 1 = length repeats then 0 else 0 + 1"
  let ?seed = "replicate (2 + 2 * ?r) x"
  have pos0: "0 < length repeats" using assms(2) by simp
  have seed: "extend_last_two ?r ([x] @ [x]) = ?seed"
    using extend_last_two_same [of ?r 0 x] by simp
  have step: "bean_stitch stitches repeats = bean_loop rest repeats ?pos ?seed"
    using assms pos0 seed by (auto simp: bean_stitch_def st)
  have "?pos < length repeats" using pos0 by (cases repeats) auto
  from bean_loop_length [OF this, of ?seed rest] obtain out
    where out: "bean_loop rest repeats ?pos ?seed = Inr out" by auto
  from bean_loop_prefix [OF out] obtain zs where zs: "out = ?seed @ zs"
    by (auto simp: prefix_def)
  have tk: "take (2 + 2 * ?r) out = ?seed" by (simp add: zs)
  have "out ! 0 = x" and "out ! 1 = x"
    by (simp_all add: zs nth_append)
  with step out tk show ?thesis by (simp add: st)
qed

theorem bean_stitch_starts_with_first_twice_witness:
  "\<exists>out. bean_stitch [(0, 0), (1, 0) :: point] [1] = Inr out \<and>
     out ! 0 = (0, 0) \<and> out ! 1 = (0, 0) \<and> take 4 out = replicate 4 (0, 0)"
  using bean_stitch_starts_with_first_twice [of "[(0, 0), (1, 0) :: point]" "[1]"]
  by simp

section \<open>Geometry of a segment\<close>

lemma point_length_nonneg: "0 \<le> point_length v"
  by (simp add: point_length_def)

lemma point_length_zero_iff: "point_length v = 0 \<longleftrightarrow> v = (0, 0)"
  by (cases v) (simp add: point_length_def)

lemma point_distance_nonneg: "0 \<le> point_distance a b"
  by (simp add: point_distance_def point_length_nonneg)

lemma point_distance_zero_iff: "point_distance a b = 0 \<longleftrightarrow> a = b"
  by (cases a; cases b) (auto simp: point_distance_def point_length_zero_iff point_sub_def)

lemma point_along_same: "point_along a a t = a"
  by (cases a) (simp add: point_along_def point_add_def point_mul_def point_sub_def)

lemma interpolate_normalized_inside:
  assumes "0 < t" and "t < 1"
  shows "interpolate a b t True = point_along a b t"
proof (cases "a = b")
  case True
  then show ?thesis
    by (simp add: interpolate_def Let_def point_along_same point_distance_zero_iff [THEN iffD2])
next
  case False
  then have "0 < point_distance a b"
    using point_distance_nonneg [of a b] point_distance_zero_iff [of a b] by linarith
  then have "0 < t * point_distance a b" and "t * point_distance a b < point_distance a b"
    using assms by simp_all
  then show ?thesis
    using \<open>0 < point_distance a b\<close> by (simp add: interpolate_def Let_def point_along_def)
qed

lemma even_splits_sorted:
  "0 < n \<Longrightarrow> sorted (map (\<lambda>k. real_of_int k / real_of_int n) [i..j])"
proof -
  assume n: "0 < n"
  have "sorted_wrt (\<le>) [i..j]" using sorted_upto by simp
  then have "sorted_wrt (\<lambda>x y. real_of_int x / real_of_int n \<le> real_of_int y / real_of_int n) [i..j]"
    by (rule sorted_wrt_mono_rel [rotated]) (use n in \<open>simp add: divide_right_mono\<close>)
  then show ?thesis by (simp add: sorted_map)
qed

lemma split_even_n_unseeded:
  assumes "1 < segments"
  shows "split_segment_even_n G a b segments jitter_sigma None =
          map (\<lambda>k. point_along a b (real_of_int k / real_of_int segments)) [1..segments - 1]"
proof -
  have srt: "sort (map (\<lambda>k. real_of_int k / real_of_int segments) [1..segments - 1])
        = map (\<lambda>k. real_of_int k / real_of_int segments) [1..segments - 1]"
    using assms by (intro sorted_sort_id even_splits_sorted) simp
  have "interpolate a b (real_of_int k / real_of_int segments) True
          = point_along a b (real_of_int k / real_of_int segments)"
    if "k \<in> set [1..segments - 1]" for k
    using that assms by (intro interpolate_normalized_inside) auto
  then show ?thesis
    using assms by (simp add: split_segment_even_n_def srt cong: map_cong)
qed

lemma point_along_end_iff:
  assumes "a \<noteq> b"
  shows "point_along a b t = b \<longleftrightarrow> t = 1"
proof
  assume h: "point_along a b t = b"
  obtain ax ay bx by' where ab: "a = (ax, ay)" "b = (bx, by')" by (cases a; cases b) auto
  from h have "ax + t * (bx - ax) = bx" "ay + t * (by' - ay) = by'"
    by (simp_all add: ab point_along_def point_add_def point_mul_def point_sub_def)
  then have "(t - 1) * (bx - ax) = 0" "(t - 1) * (by' - ay) = 0"
    by (simp_all add: algebra_simps)
  with assms ab show "t = 1" by auto
next
  assume "t = 1"
  then show "point_along a b t = b"
    by (cases a; cases b) (simp add: point_along_def point_add_def point_mul_def point_sub_def)
qed

lemma point_along_start_iff:
  assumes "a \<noteq> b"
  shows "point_along a b t = a \<longleftrightarrow> t = 0"
proof
  assume h: "point_along a b t = a"
  obtain ax ay bx by' where ab: "a = (ax, ay)" "b = (bx, by')" by (cases a; cases b) auto
  from h have "t * (bx - ax) = 0" "t * (by' - ay) = 0"
    by (simp_all add: ab point_along_def point_add_def point_mul_def point_sub_def)
  with assms ab show "t = 0" by auto
next
  assume "t = 0"
  then show "point_along a b t = a"
    by (cases a) (simp add: point_along_def point_add_def point_mul_def point_sub_def)
qed

lemma interpolate_below_end:
  assumes "a \<noteq> b" and "x < point_distance a b"
  shows "interpolate a b x False \<noteq> b"
proof -
  let ?len = "point_distance a b"
  have pos: "0 < ?len"
    using assms(1) point_distance_nonneg [of a b] point_distance_zero_iff [of a b] by linarith
  let ?f = "if x < 0 then ?len + x else x"
  have flt: "?f < ?len" using assms(2) by simp
  show ?thesis
  proof (cases "?f \<le> 0")
    case True
    then show ?thesis using assms(1) flt by (simp add: interpolate_def Let_def)
  next
    case False
    then have "interpolate a b x False = point_along a b (?f / ?len)"
      using flt by (simp add: interpolate_def Let_def point_along_def)
    moreover have "?f / ?len \<noteq> 1" using flt pos by simp
    ultimately show ?thesis using point_along_end_iff [OF assms(1)] by simp
  qed
qed

section \<open>The random-phase splitter\<close>

lemma random_phase_loop_below:
  assumes "random_phase_loop xs len ls d i progress splits = Some out"
    and "list_all (\<lambda>x. x < d) splits"
  shows "list_all (\<lambda>x. x < d) out"
proof -
  have "list_all (\<lambda>x. x < d) splits \<longrightarrow> list_all (\<lambda>x. x < d) out"
    by (rule random_phase_loop.raw_induct
          [where P = "\<lambda>xs len ls d i progress splits out.
                        list_all (\<lambda>x. x < d) splits \<longrightarrow> list_all (\<lambda>x. x < d) out",
           OF _ assms(1)])
       (auto split: if_splits simp: not_le)
  with assms(2) show ?thesis by simp
qed

lemma random_phase_splits_below:
  assumes "random_phase_splits G a b len ls seed = Some splits"
  shows "list_all (\<lambda>x. x < point_distance a b) splits"
proof (cases "point_distance a b \<le> len * uniformFloats G [seed, ''phase''] 0")
  case True
  with assms show ?thesis by (simp add: random_phase_splits_def Let_def)
next
  case False
  with assms have
    "random_phase_loop (iterUniformFloats G seed) len ls (point_distance a b) 0
       (len * uniformFloats G [seed, ''phase''] 0) [len * uniformFloats G [seed, ''phase''] 0] = Some splits"
    by (simp add: random_phase_splits_def Let_def)
  from random_phase_loop_below [OF this] False show ?thesis by (simp add: not_le)
qed


lemma ceiling_steps_decrease:
  fixes c d p s :: real
  assumes "0 < c" and "c \<le> s" and "p + s < d"
  shows "nat \<lceil>(d - (p + s)) / c\<rceil> < nat \<lceil>(d - p) / c\<rceil>"
proof -
  have "(d - (p + s)) / c = (d - p) / c - s / c"
    by (simp add: diff_divide_distrib add_divide_distrib)
  moreover have "1 \<le> s / c" using assms by simp
  ultimately have "(d - (p + s)) / c \<le> (d - p) / c - 1" by linarith
  then have "\<lceil>(d - (p + s)) / c\<rceil> \<le> \<lceil>(d - p) / c - 1\<rceil>" by (rule ceiling_mono)
  then have "\<lceil>(d - (p + s)) / c\<rceil> \<le> \<lceil>(d - p) / c\<rceil> - 1" by simp
  moreover have "0 < (d - (p + s)) / c" using assms by simp
  then have "0 < \<lceil>(d - (p + s)) / c\<rceil>" by simp
  ultimately show ?thesis by linarith
qed

lemma random_phase_loop_returns:
  assumes c: "0 < c" and step: "\<And>i. c \<le> len * (1 + ls * (xs i - 1 / 2) * 2)"
    and inv: "sorted_wrt (<) splits" "0 \<le> progress" "\<forall>x\<in>set splits. 0 < x \<and> x \<le> progress \<and> x < d"
  shows "\<exists>out. random_phase_loop xs len ls d i progress splits = Some out \<and>
           sorted_wrt (<) out \<and> (\<forall>x\<in>set out. 0 < x \<and> x < d)"
  using inv
proof (induction "nat \<lceil>(d - progress) / c\<rceil>" arbitrary: i progress splits rule: less_induct)
  case less
  define s where "s = len * (1 + ls * (xs i - 1 / 2) * 2)"
  have cs: "c \<le> s" unfolding s_def by (rule step)
  show ?case
  proof (cases "d \<le> progress + s")
    case True
    then have "random_phase_loop xs len ls d i progress splits = Some splits"
      by (subst random_phase_loop.simps) (simp add: s_def)
    with less.prems show ?thesis by auto
  next
    case False
    then have lt: "progress + s < d" by simp
    have unfold: "random_phase_loop xs len ls d i progress splits
        = random_phase_loop xs len ls d (Suc i) (progress + s) (splits @ [progress + s])"
      using False by (subst random_phase_loop.simps) (simp add: s_def)
    have dec: "nat \<lceil>(d - (progress + s)) / c\<rceil> < nat \<lceil>(d - progress) / c\<rceil>"
      using c cs lt by (rule ceiling_steps_decrease)
    have gt: "\<forall>x\<in>set splits. x < progress + s" using less.prems(3) cs c by fastforce
    have s1: "sorted_wrt (<) (splits @ [progress + s])"
      using less.prems(1) gt by (simp add: sorted_wrt_append)
    have ppos: "0 < progress + s" using less.prems(2) cs c by linarith
    then have p0: "0 \<le> progress + s" by simp
    have s2: "\<forall>x\<in>set (splits @ [progress + s]). 0 < x \<and> x \<le> progress + s \<and> x < d"
      using less.prems(3) gt lt ppos by auto
    from less.hyps [OF dec s1 p0 s2] unfold show ?thesis by simp
  qed
qed

lemma jitter_step_lower:
  assumes "unit_interval u" and "\<bar>ls\<bar> < 1" and "0 < len"
  shows "len * (1 - \<bar>ls\<bar>) \<le> len * (1 + ls * (u - 1 / 2) * 2)"
proof -
  have "\<bar>(u - 1 / 2) * 2\<bar> \<le> 1" using assms(1) by (simp add: unit_interval_def abs_le_iff)
  then have "\<bar>ls * ((u - 1 / 2) * 2)\<bar> \<le> \<bar>ls\<bar> * 1"
    unfolding abs_mult by (intro mult_left_mono) simp_all
  then have "- \<bar>ls\<bar> \<le> ls * (u - 1 / 2) * 2" by (simp add: abs_le_iff mult.assoc)
  then have "1 - \<bar>ls\<bar> \<le> 1 + ls * (u - 1 / 2) * 2" by simp
  then show ?thesis using assms(3) by (rule mult_left_mono [OF _ less_imp_le])
qed

lemma random_phase_splits_returns:
  assumes G: "prng_ok G" and ls: "\<bar>ls\<bar> < 1" and len: "0 < len"
    and u0: "0 < uniformFloats G [seed, ''phase''] 0"
  shows "\<exists>splits. random_phase_splits G a b len ls seed = Some splits \<and>
           sorted_wrt (<) splits \<and> (\<forall>x\<in>set splits. 0 < x \<and> x < point_distance a b)"
proof -
  let ?p = "len * uniformFloats G [seed, ''phase''] 0"
  let ?d = "point_distance a b"
  have ppos: "0 < ?p" using len u0 by simp
  show ?thesis
  proof (cases "?d \<le> ?p")
    case True
    then show ?thesis by (simp add: random_phase_splits_def Let_def)
  next
    case False
    have c: "0 < len * (1 - \<bar>ls\<bar>)" using ls len by simp
    have step: "len * (1 - \<bar>ls\<bar>) \<le> len * (1 + ls * (iterUniformFloats G seed i - 1 / 2) * 2)" for i
      using G ls len by (intro jitter_step_lower) (simp_all add: prng_ok_def)
    have "\<exists>out. random_phase_loop (iterUniformFloats G seed) len ls ?d 0 ?p [?p] = Some out \<and>
           sorted_wrt (<) out \<and> (\<forall>x\<in>set out. 0 < x \<and> x < ?d)"
      using False ppos by (intro random_phase_loop_returns [OF c step]) simp_all
    with False show ?thesis by (simp add: random_phase_splits_def Let_def)
  qed
qed

section \<open>The even splitters with jitter\<close>

lemma jitter_bound:
  assumes "unit_interval u" and "\<bar>sg\<bar> \<le> 1 / 2"
  shows "\<bar>(u * 2 - 1) * sg\<bar> \<le> 1 / 2"
proof -
  have "\<bar>u * 2 - 1\<bar> \<le> 1" using assms(1) by (simp add: unit_interval_def abs_le_iff)
  then have "\<bar>u * 2 - 1\<bar> * \<bar>sg\<bar> \<le> 1 * (1 / 2)"
    using assms(2) by (intro mult_mono) simp_all
  then show ?thesis by (simp add: abs_mult)
qed

lemma jitter_diff_bound:
  assumes "unit_interval u" and "unit_interval v" and "\<bar>sg\<bar> \<le> 1 / 2"
  shows "\<bar>(u * 2 - 1) * sg - (v * 2 - 1) * sg\<bar> < 1"
proof (cases "sg = 0")
  case True
  then show ?thesis by simp
next
  case False
  have "(u * 2 - 1) * sg - (v * 2 - 1) * sg = (2 * (u - v)) * sg" by (simp add: algebra_simps)
  moreover have "\<bar>2 * (u - v)\<bar> < 2" using assms(1,2) by (simp add: unit_interval_def abs_less_iff)
  then have "\<bar>2 * (u - v)\<bar> * \<bar>sg\<bar> < 2 * \<bar>sg\<bar>" using False by simp
  ultimately show ?thesis using assms(3) by (simp add: abs_mult)
qed

lemma jittered_splits_nth:
  assumes n: "1 < segments" and G: "prng_ok G" and i: "i < nat (segments - 1)"
  shows "jittered_splits G segments sg seed ! i =
           (1 + real i) / real_of_int segments
           + ((nUniformFloats G (nat (segments - 1)) seed ! i) * 2 - 1) * sg / real_of_int segments"
proof -
  have len: "length (nUniformFloats G (nat (segments - 1)) seed) = nat (segments - 1)"
    using G by (simp add: prng_ok_def)
  have "[1..segments - 1] ! i = 1 + int i" using i by (intro nth_upto) linarith
  then show ?thesis using i len by (simp add: jittered_splits_def)
qed

lemma jittered_splits_length:
  assumes "prng_ok G"
  shows "length (jittered_splits G segments sg seed) = nat (segments - 1)"
  using assms by (simp add: jittered_splits_def prng_ok_def)

lemma jittered_splits_sorted:
  assumes n: "1 < segments" and G: "prng_ok G" and sg: "\<bar>sg\<bar> \<le> 1 / 2"
  shows "sorted_wrt (<) (jittered_splits G segments sg seed)"
proof -
  let ?m = "nat (segments - 1)"
  let ?us = "nUniformFloats G ?m seed"
  let ?n = "real_of_int segments"
  have npos: "0 < ?n" using n by simp
  have us: "unit_interval (?us ! i)" if "i < ?m" for i
    using G that by (auto simp: prng_ok_def list_all_length)
  have "jittered_splits G segments sg seed ! i < jittered_splits G segments sg seed ! j"
    if "i < j" and "j < ?m" for i j
  proof -
    have i: "i < ?m" using that by simp
    let ?wi = "(?us ! i * 2 - 1) * sg" and ?wj = "(?us ! j * 2 - 1) * sg"
    have "\<bar>?wi - ?wj\<bar> < 1" using us [OF i] us [OF that(2)] sg by (rule jitter_diff_bound)
    moreover have "real i + 1 \<le> real j" using that(1) by simp
    ultimately have "(1 + real i) + ?wi < (1 + real j) + ?wj" by (simp add: abs_less_iff)
    then have "((1 + real i) + ?wi) / ?n < ((1 + real j) + ?wj) / ?n"
      using npos by (simp add: divide_strict_right_mono)
    then show ?thesis
      unfolding jittered_splits_nth [OF n G i] jittered_splits_nth [OF n G that(2)]
      by (simp add: add_divide_distrib)
  qed
  then show ?thesis
    using G by (simp add: sorted_wrt_iff_nth_less jittered_splits_length)
qed

lemma jittered_splits_inside:
  assumes n: "1 < segments" and G: "prng_ok G" and sg: "\<bar>sg\<bar> \<le> 1 / 2"
    and t: "t \<in> set (jittered_splits G segments sg seed)"
  shows "0 < t \<and> t < 1"
proof -
  let ?m = "nat (segments - 1)"
  let ?us = "nUniformFloats G ?m seed"
  let ?n = "real_of_int segments"
  have npos: "0 < ?n" using n by simp
  from t obtain i where i: "i < ?m" and ti: "t = jittered_splits G segments sg seed ! i"
    using G by (auto simp: in_set_conv_nth jittered_splits_length)
  have "unit_interval (?us ! i)"
    using G i by (auto simp: prng_ok_def list_all_length)
  then have w: "\<bar>(?us ! i * 2 - 1) * sg\<bar> \<le> 1 / 2" using sg by (rule jitter_bound)
  have t': "t = ((1 + real i) + (?us ! i * 2 - 1) * sg) / ?n"
    unfolding ti jittered_splits_nth [OF n G i] by (simp add: add_divide_distrib)
  have "real i + 1 \<le> real ?m" using i by linarith
  also have "real ?m = ?n - 1" using n by simp
  finally have iu: "real i + 2 \<le> ?n" by simp
  have "0 < (1 + real i) + (?us ! i * 2 - 1) * sg" using w by (simp add: abs_le_iff)
  then have "0 < t" unfolding t' using npos by simp
  moreover have "(1 + real i) + (?us ! i * 2 - 1) * sg < ?n" using w iu by (simp add: abs_le_iff)
  then have "t < 1" unfolding t' using npos by simp
  ultimately show ?thesis by simp
qed

section \<open>Interior and increasing points\<close>


lemma point_length_mul: "point_length (point_mul t v) = \<bar>t\<bar> * point_length v"
proof -
  have "(t * fst v)\<^sup>2 + (t * snd v)\<^sup>2 = t\<^sup>2 * ((fst v)\<^sup>2 + (snd v)\<^sup>2)"
    by (simp add: power_mult_distrib distrib_left)
  then show ?thesis
    by (simp add: point_length_def point_mul_def real_sqrt_mult)
qed

lemma point_distance_along_start:
  "point_distance a (point_along a b t) = \<bar>t\<bar> * point_distance a b"
proof -
  have "point_sub (point_along a b t) a = point_mul t (point_sub b a)"
    by (simp add: point_along_def point_add_def point_mul_def point_sub_def)
  then show ?thesis by (simp add: point_distance_def point_length_mul)
qed

lemma point_distance_along_end:
  "point_distance (point_along a b t) b = \<bar>1 - t\<bar> * point_distance a b"
proof -
  have "point_sub b (point_along a b t) = point_mul (1 - t) (point_sub b a)"
    by (simp add: point_along_def point_add_def point_mul_def point_sub_def algebra_simps)
  then show ?thesis by (simp add: point_distance_def point_length_mul)
qed

lemma point_distance_pos: "a \<noteq> b \<Longrightarrow> 0 < point_distance a b"
  using point_distance_nonneg [of a b] point_distance_zero_iff [of a b] by linarith

lemma fractions_interior_increasing:
  assumes ab: "a \<noteq> b" and srt: "sorted_wrt (<) ts" and ins: "\<forall>t\<in>set ts. 0 < t \<and> t < 1"
  shows "interior_increasing a b (map (point_along a b) ts)"
proof -
  have d: "0 < point_distance a b" using ab by (rule point_distance_pos)
  have "point_along a b t \<noteq> a \<and> point_along a b t \<noteq> b \<and>
        point_distance a (point_along a b t) + point_distance (point_along a b t) b
          = point_distance a b" if "t \<in> set ts" for t
  proof -
    from that ins have t: "0 < t" "t < 1" by auto
    then show ?thesis
      using point_along_start_iff [OF ab, of t] point_along_end_iff [OF ab, of t]
      by (simp add: point_distance_along_start point_distance_along_end algebra_simps)
  qed
  then have 1: "list_all (\<lambda>p. p \<noteq> a \<and> p \<noteq> b \<and>
                     point_distance a p + point_distance p b = point_distance a b)
                 (map (point_along a b) ts)"
    by (simp add: list_all_iff)
  have "sorted_wrt (\<lambda>s t. \<bar>s\<bar> * point_distance a b < \<bar>t\<bar> * point_distance a b) ts"
    using srt
  proof (rule sorted_wrt_mono_rel [rotated])
    fix s t assume "s \<in> set ts" "t \<in> set ts" "s < t"
    with ins have "\<bar>s\<bar> < \<bar>t\<bar>" by fastforce
    then show "\<bar>s\<bar> * point_distance a b < \<bar>t\<bar> * point_distance a b" using d by simp
  qed
  then have 2: "sorted_wrt (<) (map (point_distance a) (map (point_along a b) ts))"
    by (simp add: sorted_wrt_map point_distance_along_start)
  from 1 2 show ?thesis by (simp add: interior_increasing_def)
qed

lemma even_splits_strict:
  assumes "0 < n"
  shows "sorted_wrt (<) (map (\<lambda>k. real_of_int k / real_of_int n) [i..j])"
proof -
  have "sorted_wrt (<) [i..j]" by (simp add: strict_sorted_iff)
  then have "sorted_wrt (\<lambda>x y. real_of_int x / real_of_int n < real_of_int y / real_of_int n) [i..j]"
    by (rule sorted_wrt_mono_rel [rotated]) (use assms in \<open>simp add: divide_strict_right_mono\<close>)
  then show ?thesis by (simp add: sorted_wrt_map)
qed

lemma split_even_n_seeded:
  assumes n: "1 < segments" and G: "prng_ok G" and sg: "\<bar>sg\<bar> \<le> 1 / 2"
  shows "split_segment_even_n G a b segments sg (Some seed) =
          map (point_along a b) (jittered_splits G segments sg seed)"
proof -
  let ?js = "jittered_splits G segments sg seed"
  have "sorted ?js"
    using jittered_splits_sorted [OF n G sg] by (simp add: strict_sorted_iff)
  then have srt: "sort ?js = ?js" by (rule sorted_sort_id)
  have "interpolate a b t True = point_along a b t" if "t \<in> set ?js" for t
    using jittered_splits_inside [OF n G sg that] by (intro interpolate_normalized_inside) simp_all
  then have "map (\<lambda>x. interpolate a b x True) ?js = map (point_along a b) ?js"
    by (simp cong: map_cong)
  moreover have "split_segment_even_n G a b segments sg (Some seed)
      = map (\<lambda>x. interpolate a b x True) (sort ?js)"
    using n by (simp add: split_segment_even_n_def jittered_splits_def Let_def)
  ultimately show ?thesis by (simp add: srt)
qed

lemma split_even_n_interior:
  assumes G: "prng_ok G" and ab: "a \<noteq> b" and sg: "random_seed = None \<or> \<bar>sg\<bar> \<le> 1 / 2"
  shows "interior_increasing a b (split_segment_even_n G a b segments sg random_seed)"
proof (cases "1 < segments")
  case False
  then show ?thesis by (simp add: split_segment_even_n_def interior_increasing_def)
next
  case n: True
  show ?thesis
  proof (cases random_seed)
    case None
    have "\<forall>t\<in>set (map (\<lambda>k. real_of_int k / real_of_int segments) [1..segments - 1]). 0 < t \<and> t < 1"
      using n by auto
    with even_splits_strict [of segments 1 "segments - 1"] n
    have "interior_increasing a b (map (point_along a b)
            (map (\<lambda>k. real_of_int k / real_of_int segments) [1..segments - 1]))"
      by (intro fractions_interior_increasing [OF ab]) simp_all
    then show ?thesis by (simp add: None split_even_n_unseeded [OF n] comp_def)
  next
    case (Some seed)
    with sg have sg': "\<bar>sg\<bar> \<le> 1 / 2" by simp
    show ?thesis
      unfolding Some split_even_n_seeded [OF n G sg']
      using jittered_splits_sorted [OF n G sg'] jittered_splits_inside [OF n G sg']
      by (intro fractions_interior_increasing [OF ab]) simp_all
  qed
qed

lemma interpolate_inside:
  assumes "0 < x" and "x < point_distance a b"
  shows "interpolate a b x False = point_along a b (x / point_distance a b)"
  using assms by (simp add: interpolate_def Let_def point_along_def)

lemma split_random_phase_interior:
  assumes G: "prng_ok G" and ab: "a \<noteq> b" and ls: "\<bar>ls\<bar> < 1" and len: "0 < len"
    and u0: "0 < uniformFloats G [seed, ''phase''] 0"
  shows "\<exists>pts. split_segment_random_phase G a b len ls seed = Some pts \<and> interior_increasing a b pts"
proof -
  let ?d = "point_distance a b"
  have d: "0 < ?d" using ab by (rule point_distance_pos)
  from random_phase_splits_returns [OF G ls len u0, of a b] obtain splits where
    sp: "random_phase_splits G a b len ls seed = Some splits"
    and srt: "sorted_wrt (<) splits" and ins: "\<forall>x\<in>set splits. 0 < x \<and> x < ?d"
    by auto
  have "map (\<lambda>x. interpolate a b x False) splits = map (point_along a b) (map (\<lambda>x. x / ?d) splits)"
    using ins by (simp add: interpolate_inside cong: map_cong)
  moreover have "sorted_wrt (<) (map (\<lambda>x. x / ?d) splits)"
    unfolding sorted_wrt_map using srt
    by (rule sorted_wrt_mono_rel [rotated]) (use d in \<open>simp add: divide_strict_right_mono\<close>)
  moreover have "\<forall>t\<in>set (map (\<lambda>x. x / ?d) splits). 0 < t \<and> t < 1"
    using ins d by auto
  ultimately have "interior_increasing a b (map (\<lambda>x. interpolate a b x False) splits)"
    using fractions_interior_increasing [OF ab, of "map (\<lambda>x. x / ?d) splits"] by metis
  with sp show ?thesis by (simp add: split_segment_random_phase_def)
qed

section \<open>Properties of the segment splitters\<close>


text \<open>
  In exact arithmetic, on a segment with \<open>a \<noteq> b\<close> and a generator that meets its contract:
  \<^verbatim>\<open>split_segment_even_n\<close>, called without a seed or with \<open>|jitter_sigma| \<le> 1/2\<close>, returns points
  that are strictly interior and strictly increasing in arc-length position; so does
  \<^verbatim>\<open>split_segment_even_dist\<close> under the same condition when \<^verbatim>\<open>max_length\<close> is not zero; and
  \<^verbatim>\<open>split_segment_random_phase\<close> with a positive \<^verbatim>\<open>length\<close>, \<open>|length_sigma| < 1\<close> and a positive
  phase draw returns, with such points.
\<close>

lemma splitters_interior_increasing_exact:
  assumes "prng_ok G" and "a \<noteq> b"
  shows "(random_seed = None \<or> \<bar>jitter_sigma\<bar> \<le> 1 / 2 \<longrightarrow>
           interior_increasing a b (split_segment_even_n G a b segments jitter_sigma random_seed)) \<and>
         (max_length \<noteq> 0 \<and> (random_seed = None \<or> \<bar>jitter_sigma\<bar> \<le> 1 / 2) \<longrightarrow>
           (\<exists>pts. split_segment_even_dist G a b max_length jitter_sigma random_seed = Inr pts \<and>
                  interior_increasing a b pts)) \<and>
         (0 < len \<and> \<bar>length_sigma\<bar> < 1 \<and> 0 < uniformFloats G [seed, ''phase''] 0 \<longrightarrow>
           (\<exists>pts. split_segment_random_phase G a b len length_sigma seed = Some pts \<and>
                  interior_increasing a b pts))"
proof (intro conjI impI)
  assume "random_seed = None \<or> \<bar>jitter_sigma\<bar> \<le> 1 / 2"
  then show "interior_increasing a b (split_segment_even_n G a b segments jitter_sigma random_seed)"
    by (rule split_even_n_interior [OF assms])
next
  assume h: "max_length \<noteq> 0 \<and> (random_seed = None \<or> \<bar>jitter_sigma\<bar> \<le> 1 / 2)"
  then have "interior_increasing a b
      (split_segment_even_n G a b \<lceil>point_distance a b / max_length\<rceil> jitter_sigma random_seed)"
    by (intro split_even_n_interior [OF assms]) simp
  with h show "\<exists>pts. split_segment_even_dist G a b max_length jitter_sigma random_seed = Inr pts \<and>
                  interior_increasing a b pts"
    by (simp add: split_segment_even_dist_def Let_def)
next
  assume "0 < len \<and> \<bar>length_sigma\<bar> < 1 \<and> 0 < uniformFloats G [seed, ''phase''] 0"
  then show "\<exists>pts. split_segment_random_phase G a b len length_sigma seed = Some pts \<and>
                  interior_increasing a b pts"
    using assms by (intro split_random_phase_interior) simp_all
qed

text \<open>
  In exact arithmetic: if the first offset reaches the length of the segment,
  \<^verbatim>\<open>split_segment_random_phase\<close> returns the empty sequence; whenever it returns, every
  returned point is the interpolation of an offset strictly below the length of the
  segment, and on a segment with \<open>a \<noteq> b\<close> none of the points is \<open>b\<close>.
\<close>

lemma split_random_phase_below_far_end_exact:
  "(point_distance a b \<le> len * uniformFloats G [seed, ''phase''] 0 \<longrightarrow>
      split_segment_random_phase G a b len length_sigma seed = Some []) \<and>
   (\<forall>pts. split_segment_random_phase G a b len length_sigma seed = Some pts \<longrightarrow>
      (\<exists>splits. pts = map (\<lambda>x. interpolate a b x False) splits \<and>
                list_all (\<lambda>x. x < point_distance a b) splits) \<and>
      (a \<noteq> b \<longrightarrow> b \<notin> set pts))"
proof (intro conjI allI impI)
  assume "point_distance a b \<le> len * uniformFloats G [seed, ''phase''] 0"
  then show "split_segment_random_phase G a b len length_sigma seed = Some []"
    by (simp add: split_segment_random_phase_def random_phase_splits_def Let_def)
next
  fix pts
  assume "split_segment_random_phase G a b len length_sigma seed = Some pts"
  then obtain splits where sp: "random_phase_splits G a b len length_sigma seed = Some splits"
    and pts: "pts = map (\<lambda>x. interpolate a b x False) splits"
    by (auto simp: split_segment_random_phase_def)
  from random_phase_splits_below [OF sp] pts
  show "\<exists>splits. pts = map (\<lambda>x. interpolate a b x False) splits \<and>
                list_all (\<lambda>x. x < point_distance a b) splits"
    by blast
  assume "a \<noteq> b"
  with random_phase_splits_below [OF sp] show "b \<notin> set pts"
    by (auto simp: pts list_all_iff dest: interpolate_below_end)
qed

text \<open>
  C9. Without a seed, \<^verbatim>\<open>split_segment_even_n\<close> returns nothing when \<open>segments \<le> 1\<close>, and
  otherwise exactly the \<open>segments - 1\<close> points at the fractions \<open>k / segments\<close>,
  \<open>k = 1, \<dots>, segments - 1\<close>, of the way from \<open>a\<close> to \<open>b\<close>, in increasing order; for
  \<open>segments = 4\<close> these are the points at \<open>1/4\<close>, \<open>1/2\<close> and \<open>3/4\<close>, in that order.
\<close>

theorem split_even_n_unseeded_positions:
  "(segments \<le> 1 \<longrightarrow> split_segment_even_n G a b segments jitter_sigma None = []) \<and>
   (1 < segments \<longrightarrow>
      split_segment_even_n G a b segments jitter_sigma None =
        map (\<lambda>k. point_along a b (real_of_int k / real_of_int segments)) [1..segments - 1] \<and>
      int (length (split_segment_even_n G a b segments jitter_sigma None)) = segments - 1 \<and>
      sorted_wrt (<) (map (\<lambda>k. real_of_int k / real_of_int segments) [1..segments - 1])) \<and>
   split_segment_even_n G a b 4 jitter_sigma None =
     [point_along a b (1 / 4), point_along a b (1 / 2), point_along a b (3 / 4)]"
proof (intro conjI impI)
  show "split_segment_even_n G a b segments jitter_sigma None = []" if "segments \<le> 1"
    using that by (simp add: split_segment_even_n_def)
next
  assume n: "1 < segments"
  show "split_segment_even_n G a b segments jitter_sigma None =
        map (\<lambda>k. point_along a b (real_of_int k / real_of_int segments)) [1..segments - 1]"
    using n by (rule split_even_n_unseeded)
  then show "int (length (split_segment_even_n G a b segments jitter_sigma None)) = segments - 1"
    using n by simp
  show "sorted_wrt (<) (map (\<lambda>k. real_of_int k / real_of_int segments) [1..segments - 1])"
    using n by (intro even_splits_strict) simp
next
  have "[1..3::int] = [1, 2, 3]" by (simp add: upto.simps)
  then show "split_segment_even_n G a b 4 jitter_sigma None =
     [point_along a b (1 / 4), point_along a b (1 / 2), point_along a b (3 / 4)]"
    using split_even_n_unseeded [of 4 G a b jitter_sigma] by simp
qed

theorem split_even_n_unseeded_positions_witness:
  "split_segment_even_n example_prng (0, 0) (8, 0) 1 0 None = [] \<and>
   split_segment_even_n example_prng (0, 0) (8, 0) 4 0 None = [(2, 0), (4, 0), (6, 0)]"
  using split_even_n_unseeded_positions [of 1 example_prng "(0, 0)" "(8, 0)" 0]
    split_even_n_unseeded_positions [of 4 example_prng "(0, 0)" "(8, 0)" 0]
  by (simp add: point_along_def point_add_def point_mul_def point_sub_def upto.simps)

section \<open>The walk along one section\<close>

lemma count_steps_iff:
  assumes "0 < asl"
  shows "j < count_steps d asl L \<longleftrightarrow> d + real j * asl < L"
proof (cases "d < L")
  case True
  have "j < nat \<lceil>(L - d) / asl\<rceil> \<longleftrightarrow> int j < \<lceil>(L - d) / asl\<rceil>" by linarith
  also have "\<dots> \<longleftrightarrow> real j < (L - d) / asl" by (simp add: less_ceiling_iff)
  also have "\<dots> \<longleftrightarrow> real j * asl < L - d" using assms by (simp add: pos_less_divide_eq)
  also have "\<dots> \<longleftrightarrow> d + real j * asl < L" by linarith
  finally show ?thesis using True by (simp add: count_steps_def)
next
  case False
  have "0 \<le> real j * asl" using assms by simp
  with False show ?thesis by (simp add: count_steps_def)
qed

lemma count_steps_split:
  assumes asl: "0 < asl" and l: "l \<le> L"
  shows "count_steps d asl L =
           count_steps d asl l + count_steps (d + real (count_steps d asl l) * asl - l) asl (L - l)"
proof -
  let ?m = "count_steps d asl l"
  let ?A = "count_steps d asl L"
  let ?B = "count_steps (d + real ?m * asl - l) asl (L - l)"
  have AB: "k < ?B \<longleftrightarrow> ?m + k < ?A" for k
    unfolding count_steps_iff [OF asl] by (simp add: algebra_simps)
  have mA: "?m \<le> ?A"
  proof (cases ?m)
    case 0
    then show ?thesis by simp
  next
    case (Suc m')
    then have "m' < ?m" by simp
    then have "d + real m' * asl < l" unfolding count_steps_iff [OF asl] .
    with l have "m' < ?A" unfolding count_steps_iff [OF asl] by simp
    with Suc show ?thesis by simp
  qed
  have "\<not> ?m + ?B < ?A" using AB [of ?B] by simp
  moreover have "?m + ?B \<le> ?A"
  proof (cases ?B)
    case 0
    with mA show ?thesis by simp
  next
    case (Suc b)
    then have "b < ?B" by simp
    then have "?m + b < ?A" unfolding AB .
    with Suc show ?thesis by simp
  qed
  ultimately show ?thesis by simp
qed

lemma stitch_while_result:
  assumes asl: "0 < asl"
  shows "stitch_while asl s dir L d out =
           Some (d + real (count_steps d asl L) * asl,
                 out @ map (\<lambda>j. point_add s (point_mul (d + real j * asl) dir))
                         [0..<count_steps d asl L])"
proof (induction "count_steps d asl L" arbitrary: d out)
  case 0
  then have "\<not> d < L" using count_steps_iff [OF asl, of 0 d L] by simp
  then have "stitch_while asl s dir L d out = Some (d, out)"
    by (subst stitch_while.simps) simp
  with 0 [symmetric] show ?case by simp
next
  case (Suc m)
  from Suc.hyps(2) have dl: "d < L" using count_steps_iff [OF asl, of 0 d L] by simp
  have "j < count_steps (d + asl) asl L \<longleftrightarrow> Suc j < count_steps d asl L" for j
    unfolding count_steps_iff [OF asl] by (simp add: algebra_simps)
  then have "j < count_steps (d + asl) asl L \<longleftrightarrow> j < m" for j
    using Suc.hyps(2) [symmetric] by simp
  then have m: "m = count_steps (d + asl) asl L"
    by (metis linorder_neqE_nat less_irrefl)
  have unfold: "stitch_while asl s dir L d out =
      stitch_while asl s dir L (d + asl) (out @ [point_add s (point_mul d dir)])"
    using dl by (subst stitch_while.simps) simp
  have upt: "[0..<Suc m] = 0 # map Suc [0..<m]"
    by (simp add: upt_conv_Cons map_Suc_upt del: upt_Suc)
  show ?case
    unfolding unfold Suc.hyps(1) [OF m] m [symmetric] Suc.hyps(2) [symmetric] upt
    by (simp add: algebra_simps comp_def)
qed


lemma linestring_length_nonneg: "0 \<le> linestring_length ps"
  by (induction ps rule: linestring_length.induct) (simp_all add: point_distance_nonneg)

lemma point_mul_unit:
  "point_add s (point_mul x (point_mul (1 / point_distance s q) (point_sub q s)))
     = point_along s q (x / point_distance s q)"
  by (simp add: point_along_def point_mul_def)

lemma walk_segment_step:
  assumes asl: "0 < asl" and d: "0 \<le> d"
  shows "walk_segments asl s (q # rest) d out =
           walk_segments asl q rest
             (d + real (count_steps d asl (point_distance s q)) * asl - point_distance s q)
             (out @ map (\<lambda>j. point_along s q ((d + real j * asl) / point_distance s q))
                      [0..<count_steps d asl (point_distance s q)])"
proof (cases "d < point_distance s q")
  case True
  then have "point_length (point_sub q s) \<noteq> 0" using d by (simp add: point_distance_def)
  then have u: "point_unit (point_sub q s)
      = Inr (point_mul (1 / point_distance s q) (point_sub q s))"
    by (simp add: point_unit_def point_distance_def)
  show ?thesis
    using True
    by (simp add: Let_def u stitch_while_result [OF asl] point_mul_unit
        point_distance_def [symmetric])
next
  case False
  then have "count_steps d asl (point_distance s q) = 0" by (simp add: count_steps_def)
  with False show ?thesis by (simp add: Let_def point_distance_def [symmetric])
qed

lemma walk_segments_result:
  assumes asl: "0 < asl" and d: "0 \<le> d"
  shows "walk_segments asl s vs d out =
           Some (Inr (out @ map (\<lambda>j. point_at (s # vs) (d + real j * asl))
                             [0..<count_steps d asl (linestring_length (s # vs))]))"
  using d
proof (induction vs arbitrary: s d out)
  case Nil
  then show ?case by (simp add: count_steps_def)
next
  case (Cons q rest)
  let ?l = "point_distance s q"
  let ?L = "linestring_length (s # q # rest)"
  let ?m = "count_steps d asl ?l"
  let ?d' = "d + real ?m * asl - ?l"
  let ?m' = "count_steps ?d' asl (linestring_length (q # rest))"
  have "\<not> ?m < ?m" by simp
  then have "\<not> d + real ?m * asl < ?l" unfolding count_steps_iff [OF asl] .
  then have d': "0 \<le> ?d'" by simp
  have lL: "?l \<le> ?L" using linestring_length_nonneg [of "q # rest"] by simp
  have cnt: "count_steps d asl ?L = ?m + ?m'"
    using count_steps_split [OF asl lL, of d] by simp
  have first: "point_at (s # q # rest) (d + real j * asl)
      = point_along s q ((d + real j * asl) / ?l)" if "j < ?m" for j
    using that unfolding count_steps_iff [OF asl] by simp
  have second: "point_at (s # q # rest) (d + real (?m + k) * asl)
      = point_at (q # rest) (?d' + real k * asl)" for k
  proof -
    have "\<not> ?m + k < ?m" by simp
    then have "\<not> d + real (?m + k) * asl < ?l" unfolding count_steps_iff [OF asl] .
    then have "point_at (s # q # rest) (d + real (?m + k) * asl)
        = point_at (q # rest) (d + real (?m + k) * asl - ?l)"
      by (simp only: point_at.simps if_False)
    also have "d + real (?m + k) * asl - ?l = ?d' + real k * asl"
      by (simp only: of_nat_add distrib_right)
    finally show ?thesis .
  qed
  have A: "map (\<lambda>j. point_at (s # q # rest) (d + real j * asl)) [0..<?m]
      = map (\<lambda>j. point_along s q ((d + real j * asl) / ?l)) [0..<?m]"
    by (rule map_cong [OF refl]) (simp only: first set_upt atLeastLessThan_iff)
  have B: "map (\<lambda>j. point_at (s # q # rest) (d + real j * asl)) (map (\<lambda>k. ?m + k) [0..<?m'])
      = map (\<lambda>k. point_at (q # rest) (?d' + real k * asl)) [0..<?m']"
    by (simp only: map_map comp_def second)
  have "[0..<?m + ?m'] = [0..<?m] @ map (\<lambda>k. ?m + k) [0..<?m']"
  proof -
    have "map (\<lambda>k. ?m + k) [0..<?m'] = map (\<lambda>k. k + ?m) [0..<?m']"
      by (rule map_cong [OF refl]) (rule add.commute)
    also have "\<dots> = [?m..<?m' + ?m]" by (rule map_add_upt)
    also have "?m' + ?m = ?m + ?m'" by (rule add.commute)
    finally show ?thesis by (simp only: upt_add_eq_append [OF le0])
  qed
  then have "map (\<lambda>j. point_at (s # q # rest) (d + real j * asl)) [0..<?m + ?m']
      = map (\<lambda>j. point_along s q ((d + real j * asl) / ?l)) [0..<?m]
        @ map (\<lambda>k. point_at (q # rest) (?d' + real k * asl)) [0..<?m']"
    by (simp only: map_append A B)
  then show ?case
    by (simp only: walk_segment_step [OF asl Cons.prems] Cons.IH [OF d'] cnt append_assoc)
qed


lemma point_at_start: "ps \<noteq> [] \<Longrightarrow> point_at ps 0 = hd ps"
proof (induction ps "0::real" rule: point_at.induct)
  case (1 p q rest)
  show ?case
  proof (cases "0 < point_distance p q")
    case True
    then show ?thesis
      by (cases p) (simp add: point_along_def point_add_def point_mul_def)
  next
    case False
    then have z: "point_distance p q = 0" using point_distance_nonneg [of p q] by simp
    then have "p = q" by (simp add: point_distance_zero_iff)
    with 1 z show ?thesis by simp
  qed
qed simp_all

lemma point_at_end:
  "ps \<noteq> [] \<Longrightarrow> linestring_length ps \<le> s \<Longrightarrow> point_at ps s = last ps"
proof (induction ps s rule: point_at.induct)
  case (1 p q rest s)
  have "0 \<le> linestring_length (q # rest)" by (rule linestring_length_nonneg)
  with 1 show ?case by simp
qed simp_all

lemma section_count:
  assumes st: "0 < st" and L: "st < L"
  shows "1 < \<lceil>L / st\<rceil>"
    and "0 < L / real_of_int \<lceil>L / st\<rceil>"
    and "L / real_of_int \<lceil>L / st\<rceil> \<le> st"
    and "count_steps (L / real_of_int \<lceil>L / st\<rceil>) (L / real_of_int \<lceil>L / st\<rceil>) L
           = nat \<lceil>L / st\<rceil> - 1"
proof -
  define n where "n = \<lceil>L / st\<rceil>"
  define a where "a = L / real_of_int n"
  have "1 < L / st" using st L by simp
  then have n: "1 < n" unfolding n_def by (simp add: less_ceiling_iff)
  then have npos: "0 < real_of_int n" by simp
  have Lpos: "0 < L" using st L by simp
  have apos: "0 < a" unfolding a_def using Lpos npos by simp
  have "L / st \<le> real_of_int n" unfolding n_def by (rule le_of_int_ceiling)
  then have "L \<le> real_of_int n * st" using st by (simp only: pos_divide_le_eq)
  then have ast: "a \<le> st" unfolding a_def using npos by (simp add: pos_divide_le_eq mult.commute)
  have na: "real_of_int n * a = L" unfolding a_def using npos by simp
  have "j < count_steps a a L \<longleftrightarrow> j < nat n - 1" for j
  proof -
    have "j < count_steps a a L \<longleftrightarrow> a + real j * a < real_of_int n * a"
      unfolding count_steps_iff [OF apos] na ..
    also have "a + real j * a = (1 + real j) * a" by (simp add: distrib_right)
    also have "(1 + real j) * a < real_of_int n * a \<longleftrightarrow> 1 + real j < real_of_int n"
      using apos by (rule mult_less_cancel_right_pos)
    also have "\<dots> \<longleftrightarrow> j < nat n - 1" using n by linarith
    finally show ?thesis .
  qed
  then have cnt: "count_steps a a L = nat n - 1"
    by (metis linorder_neqE_nat less_irrefl)
  show "1 < \<lceil>L / st\<rceil>" using n unfolding n_def .
  show "0 < L / real_of_int \<lceil>L / st\<rceil>" using apos unfolding a_def n_def .
  show "L / real_of_int \<lceil>L / st\<rceil> \<le> st" using ast unfolding a_def n_def .
  show "count_steps (L / real_of_int \<lceil>L / st\<rceil>) (L / real_of_int \<lceil>L / st\<rceil>) L
           = nat \<lceil>L / st\<rceil> - 1"
    using cnt unfolding a_def n_def .
qed

lemma stitch_section_long:
  assumes st: "0 < st" and L: "st < linestring_length (s0 # rest)"
  shows "stitch_section (s0 # rest) st out =
           Some (Inr ((if out = [] \<or> last out \<noteq> s0 then out @ [s0] else out) @
                      map (\<lambda>k. point_at (s0 # rest)
                                  (real k * (linestring_length (s0 # rest)
                                     / real_of_int \<lceil>linestring_length (s0 # rest) / st\<rceil>)))
                          [1..<nat \<lceil>linestring_length (s0 # rest) / st\<rceil>]))"
proof -
  define n where "n = \<lceil>linestring_length (s0 # rest) / st\<rceil>"
  define a where "a = linestring_length (s0 # rest) / real_of_int n"
  let ?out1 = "if out = [] \<or> last out \<noteq> s0 then out @ [s0] else out"
  note sc = section_count [OF st L, folded n_def, folded a_def]
  have n0: "n \<noteq> 0" using sc(1) by linarith
  have st0: "st \<noteq> 0" using st by simp
  have a0: "0 \<le> a" using sc(2) by simp
  have "stitch_section (s0 # rest) st out = walk_segments a s0 rest a ?out1"
    using L n0 st0 unfolding a_def n_def by (simp add: stitch_section_def Let_def)
  also have "\<dots> = Some (Inr (?out1 @ map (\<lambda>j. point_at (s0 # rest) (a + real j * a))
                                     [0..<nat n - 1]))"
    unfolding walk_segments_result [OF sc(2) a0] sc(4) ..
  also have "map (\<lambda>j. point_at (s0 # rest) (a + real j * a)) [0..<nat n - 1]
      = map (\<lambda>k. point_at (s0 # rest) (real k * a)) (map Suc [0..<nat n - 1])"
    by (simp add: comp_def distrib_right)
  also have "map Suc [0..<nat n - 1] = [1..<nat n]"
    using sc(1) by (simp add: map_Suc_upt del: upt_Suc)
  finally show ?thesis unfolding a_def n_def .
qed

lemma stitch_section_returns:
  assumes st: "0 < st"
  shows "\<exists>ext. stitch_section (s0 # rest) st out =
           Some (Inr ((if out = [] \<or> last out \<noteq> s0 then out @ [s0] else out) @ ext))"
proof (cases "st < linestring_length (s0 # rest)")
  case True
  show ?thesis unfolding stitch_section_long [OF st True] by blast
next
  case False
  then show ?thesis by (simp add: stitch_section_def Let_def)
qed

section \<open>The loop over the sections\<close>

lemma keep_ends_ok: "simplify_ok keep_ends"
proof -
  have "hd points \<in> set (keep_ends points tolerance) \<and>
        last points \<in> set (keep_ends points tolerance)" if "points \<noteq> []" for points tolerance
    using that by (cases points) (simp_all add: keep_ends_def)
  then show ?thesis unfolding simplify_ok_def by blast
qed

lemma section_at:
  assumes "start < length points" and "start \<le> fin"
  shows "take (fin + 1 - start) (drop start points)
           = points ! start # take (fin - start) (drop (Suc start) points)"
proof -
  have "drop start points = points ! start # drop (Suc start) points"
    using assms(1) by (simp add: Cons_nth_drop_Suc)
  moreover have "fin + 1 - start = Suc (fin - start)" using assms(2) by simp
  ultimately show ?thesis by simp
qed

lemma stitch_sections_returns:
  assumes st: "0 < st"
    and ok: "\<forall>(start, fin)\<in>set pairs. start < length points \<and> start \<le> fin"
  shows "\<exists>out'. stitch_sections points st pairs out = Some (Inr out') \<and> prefix out out' \<and>
           (\<forall>(start, fin)\<in>set pairs. points ! start \<in> set out') \<and>
           (pairs \<noteq> [] \<longrightarrow> out' \<noteq> []) \<and>
           (out = [] \<and> pairs \<noteq> [] \<longrightarrow> hd out' = points ! fst (hd pairs))"
  using ok
proof (induction pairs arbitrary: out)
  case Nil
  show ?case by simp
next
  case (Cons pr pairs)
  obtain start fin where pr: "pr = (start, fin)" by (cases pr)
  from Cons.prems pr have sf: "start < length points" "start \<le> fin"
    and ok': "\<forall>(start, fin)\<in>set pairs. start < length points \<and> start \<le> fin"
    by auto
  let ?s0 = "points ! start"
  let ?out1 = "if out = [] \<or> last out \<noteq> ?s0 then out @ [?s0] else out"
  from stitch_section_returns [OF st, of ?s0 "take (fin - start) (drop (Suc start) points)" out]
  obtain ext where ext: "stitch_section (take (fin + 1 - start) (drop start points)) st out
      = Some (Inr (?out1 @ ext))"
    unfolding section_at [OF sf] by blast
  from Cons.IH [OF ok', of "?out1 @ ext"] obtain out' where
    out': "stitch_sections points st pairs (?out1 @ ext) = Some (Inr out')"
    and pre: "prefix (?out1 @ ext) out'"
    and mem: "\<forall>(start, fin)\<in>set pairs. points ! start \<in> set out'"
    by blast
  have run: "stitch_sections points st (pr # pairs) out = Some (Inr out')"
    by (simp only: pr stitch_sections.simps ext option.case sum.case out')
  have "?s0 \<in> set out" if "out \<noteq> []" "last out = ?s0"
    using that by (metis last_in_set)
  then have o1: "prefix out ?out1" "?s0 \<in> set ?out1" "?out1 \<noteq> []"
    by auto
  from pre obtain zs where zs: "out' = ?out1 @ ext @ zs" by (auto simp: prefix_def)
  have p1: "prefix out out'" using o1(1) unfolding zs by (auto simp: prefix_def)
  have m1: "?s0 \<in> set out'" using o1(2) unfolding zs by (simp del: set_append) auto
  have ne: "out' \<noteq> []" using o1(3) unfolding zs by simp
  have h: "hd out' = ?s0" if "out = []" using that unfolding zs by simp
  from run p1 m1 ne h mem show ?case by (auto simp: pr)
qed


lemma indices_sorted: "sorted_wrt (<) (important_point_indices points simplified)"
  unfolding important_point_indices_def
  by (intro sorted_wrt_filter) (simp add: strict_sorted_iff)

lemma indices_set:
  "set (important_point_indices points simplified)
     = {i. i < length points \<and> points ! i \<in> set simplified}"
  by (auto simp: important_point_indices_def)

lemma consecutive_increasing:
  assumes "sorted_wrt (<) xs" and "(a, b) \<in> set (zip (butlast xs) (tl xs))"
  shows "a < (b::nat)"
proof -
  from assms(2) obtain k where k: "k < length (butlast xs)" "k < length (tl xs)"
    and a: "butlast xs ! k = a" and b: "tl xs ! k = b"
    by (auto simp: in_set_zip)
  have "a = xs ! k" using a k(1) by (simp add: nth_butlast)
  moreover have "b = xs ! Suc k" using b k(2) by (simp add: nth_tl)
  moreover have "Suc k < length xs" using k(2) by simp
  ultimately show ?thesis using assms(1) by (simp add: sorted_wrt_nth_less)
qed

lemma sorted_last_greatest:
  assumes "sorted_wrt (<) xs" and "x \<in> set xs"
  shows "x \<le> (last xs :: nat)"
proof -
  from assms(2) have ne: "xs \<noteq> []" by auto
  then have xs: "xs = butlast xs @ [last xs]" by simp
  from assms(1) have "\<forall>y\<in>set (butlast xs). y < last xs"
    by (subst (asm) xs) (simp add: sorted_wrt_append)
  moreover from assms(2) have "x \<in> set (butlast xs) \<or> x = last xs"
    by (subst (asm) xs) auto
  ultimately show ?thesis by auto
qed

lemma running_stitch_core:
  assumes S: "simplify_ok S" and n: "2 \<le> length points" and st: "0 < st"
  shows "\<exists>out. running_stitch S points st tol = Some (Inr out) \<and> out \<noteq> [] \<and>
           hd out = hd points \<and> last out = last points \<and>
           (\<forall>p\<in>set points. p \<in> set (S points tol) \<longrightarrow> p \<in> set out)"
proof -
  define idx where "idx = important_point_indices points (S points tol)"
  define pairs where "pairs = zip (butlast idx) (tl idx)"
  let ?n = "length points"
  have ne: "points \<noteq> []" using n by auto
  have hdp: "hd points = points ! 0" using ne by (simp add: hd_conv_nth)
  have lastp: "last points = points ! (?n - 1)" using ne by (simp add: last_conv_nth)
  have srt: "sorted_wrt (<) idx" unfolding idx_def by (rule indices_sorted)
  have setidx: "set idx = {i. i < ?n \<and> points ! i \<in> set (S points tol)}"
    unfolding idx_def by (rule indices_set)
  from S ne have ends: "hd points \<in> set (S points tol)" "last points \<in> set (S points tol)"
    unfolding simplify_ok_def by blast+
  have i0: "0 \<in> set idx" using ends(1) ne unfolding setidx hdp by simp
  have il: "?n - 1 \<in> set idx" using ends(2) ne unfolding setidx lastp by simp
  have lastidx: "last idx = ?n - 1"
  proof -
    have "?n - 1 \<le> last idx" using srt il by (rule sorted_last_greatest)
    moreover have "last idx \<in> set idx" using i0 by (intro last_in_set) auto
    then have "last idx < ?n" unfolding setidx by simp
    ultimately show ?thesis by simp
  qed
  obtain b r where idx: "idx = 0 # b # r"
  proof (cases idx)
    case Nil
    with i0 show ?thesis by simp
  next
    case (Cons a r')
    have a0: "a = 0"
    proof (rule ccontr)
      assume "a \<noteq> 0"
      with i0 Cons have "0 \<in> set r'" by simp
      with srt Cons have "a < 0" by auto
      then show False by simp
    qed
    show ?thesis
    proof (cases r')
      case Nil
      with Cons a0 lastidx n show ?thesis by simp
    next
      case (Cons b r)
      with \<open>idx = a # r'\<close> a0 that show ?thesis by simp
    qed
  qed
  have pairs_ne: "pairs \<noteq> []" and hdpairs: "fst (hd pairs) = 0"
    unfolding pairs_def idx by simp_all
  have fsts: "map fst pairs = butlast idx"
    unfolding pairs_def by (simp add: map_fst_zip)
  have ok: "\<forall>(start, fin)\<in>set pairs. start < ?n \<and> start \<le> fin"
  proof clarify
    fix start fin assume mem: "(start, fin) \<in> set pairs"
    then have "start < fin" using srt unfolding pairs_def by (intro consecutive_increasing)
    moreover have "start \<in> set (butlast idx)" using mem unfolding pairs_def by (rule set_zip_leftD)
    then have "start \<in> set idx" by (rule in_set_butlastD)
    then have "start < ?n" unfolding setidx by simp
    ultimately show "start < ?n \<and> start \<le> fin" by simp
  qed
  from stitch_sections_returns [OF st ok, of "[]"] pairs_ne hdpairs obtain out' where
    run: "stitch_sections points st pairs [] = Some (Inr out')"
    and mem: "\<forall>(start, fin)\<in>set pairs. points ! start \<in> set out'"
    and ne': "out' \<noteq> []" and hd': "hd out' = points ! 0"
    by auto
  let ?out = "if last points \<noteq> last out' then out' @ [last points] else out'"
  have res: "running_stitch S points st tol = Some (Inr ?out)"
    using n run ne' unfolding running_stitch_def Let_def idx_def [symmetric] pairs_def [symmetric]
    by simp
  have h: "hd ?out = hd points" using ne' hd' hdp by simp
  have l: "last ?out = last points" by simp
  have one: "?out \<noteq> []" using ne' by simp
  have imp: "p \<in> set ?out" if p: "p \<in> set points" "p \<in> set (S points tol)" for p
  proof -
    from p(1) obtain i where i: "i < ?n" "p = points ! i" by (auto simp: in_set_conv_nth)
    with p(2) have "i \<in> set idx" unfolding setidx by simp
    moreover have "idx = butlast idx @ [last idx]" unfolding idx by simp
    ultimately have "i \<in> set (butlast idx) \<or> i = last idx"
      by (metis Un_iff empty_iff insert_iff list.set(1) list.set(2) set_append)
    then show ?thesis
    proof
      assume "i \<in> set (butlast idx)"
      then have "i \<in> fst ` set pairs" unfolding fsts [symmetric] by simp
      then obtain fin where "(i, fin) \<in> set pairs" by auto
      with mem have "points ! i \<in> set out'" by auto
      then show ?thesis unfolding i(2) by simp
    next
      assume "i = last idx"
      then have "p = last points" unfolding i(2) lastidx lastp by simp
      then have "p = last ?out" by simp
      also have "\<dots> \<in> set ?out" using one by (rule last_in_set)
      finally show ?thesis .
    qed
  qed
  from res one h l imp show ?thesis by blast
qed


lemma point_length_horizontal: "point_length (x, 0) = \<bar>x\<bar>"
  by (simp add: point_length_def)

lemma point_length_vertical: "point_length (0, y) = \<bar>y\<bar>"
  by (simp add: point_length_def)

lemma keep_all_ok: "simplify_ok keep_all"
  by (simp add: simplify_ok_def keep_all_def)

lemma running_stitch_example_straight:
  "running_stitch keep_ends [(0, 0), (3, 0), (6, 0)] (5 / 2) 0
     = Some (Inr [(0, 0), (2, 0), (4, 0), (6, 0)])"
  by (simp add: running_stitch_def important_point_indices_def keep_ends_def Let_def
      stitch_section_def point_distance_def point_sub_def point_length_horizontal
      point_unit_def point_mul_def point_add_def stitch_while.simps eval_nat_numeral)

lemma running_stitch_example_corner:
  "running_stitch keep_all [(0, 0), (3, 0), (3, 4)] 2 0
     = Some (Inr [(0, 0), (3 / 2, 0), (3, 0), (3, 2), (3, 4)])"
  by (simp add: running_stitch_def important_point_indices_def keep_all_def Let_def
      stitch_section_def point_distance_def point_sub_def point_length_horizontal
      point_length_vertical
      point_unit_def point_mul_def point_add_def stitch_while.simps eval_nat_numeral)

section \<open>Properties of \<^verbatim>\<open>running_stitch\<close>\<close>

text \<open>
  C3. With fewer than two points \<^verbatim>\<open>running_stitch\<close> returns the empty sequence, without
  error. With at least two points, a positive \<^verbatim>\<open>stitch_length\<close>, a non-negative
  \<^verbatim>\<open>tolerance\<close> and a simplifier that retains the two ends of the path, it returns, and its
  output starts at the first point of the input and ends at the last.
\<close>

theorem running_stitch_endpoints:
  "(length points < 2 \<longrightarrow> running_stitch S points stitch_length tolerance = Some (Inr [])) \<and>
   (simplify_ok S \<and> 2 \<le> length points \<and> 0 < stitch_length \<and> 0 \<le> tolerance \<longrightarrow>
      (\<exists>out. running_stitch S points stitch_length tolerance = Some (Inr out) \<and> out \<noteq> [] \<and>
         hd out = hd points \<and> last out = last points))"
proof (intro conjI impI)
  assume "length points < 2"
  then show "running_stitch S points stitch_length tolerance = Some (Inr [])"
    by (simp add: running_stitch_def)
next
  assume h: "simplify_ok S \<and> 2 \<le> length points \<and> 0 < stitch_length \<and> 0 \<le> tolerance"
  then have "simplify_ok S" "2 \<le> length points" "0 < stitch_length" by simp_all
  from running_stitch_core [OF this, of tolerance]
  show "\<exists>out. running_stitch S points stitch_length tolerance = Some (Inr out) \<and> out \<noteq> [] \<and>
         hd out = hd points \<and> last out = last points"
    by blast
qed

theorem running_stitch_endpoints_witness:
  "running_stitch keep_ends [(5, 5)] (5 / 2) 0 = Some (Inr []) \<and>
   (\<exists>out. running_stitch keep_ends [(0, 0), (3, 0), (6, 0)] (5 / 2) 0 = Some (Inr out) \<and>
      out \<noteq> [] \<and> hd out = (0, 0) \<and> last out = (6, 0))"
  using running_stitch_endpoints [of "[(5, 5)]" keep_ends "5 / 2" 0]
    running_stitch_endpoints [of "[(0, 0), (3, 0), (6, 0)]" keep_ends "5 / 2" 0]
    keep_ends_ok
  by simp

text \<open>
  C7. Under the same conditions, every vertex of the input that the simplification
  retained (matched by its coordinates) is an element of the output of \<^verbatim>\<open>running_stitch\<close>,
  with the coordinates it has in the input.
\<close>

theorem running_stitch_keeps_important_points:
  assumes "simplify_ok S" and "2 \<le> length points" and "0 < stitch_length"
  shows "\<exists>out. running_stitch S points stitch_length tolerance = Some (Inr out) \<and>
           (\<forall>p\<in>set points. p \<in> set (S points tolerance) \<longrightarrow> p \<in> set out)"
  using running_stitch_core [OF assms, of tolerance] by blast

theorem running_stitch_keeps_important_points_witness:
  "\<exists>out. running_stitch keep_all [(0, 0), (3, 0), (3, 4)] 2 0 = Some (Inr out) \<and>
     (0, 0) \<in> set out \<and> (3, 0) \<in> set out \<and> (3, 4) \<in> set out"
  using running_stitch_keeps_important_points
    [OF keep_all_ok, of "[(0, 0), (3, 0), (3, 4)]" 2 0]
  by (simp add: keep_all_def)

text \<open>
  In exact arithmetic the loop body splits a section evenly, as its comments say. For a
  section longer than a positive \<^verbatim>\<open>stitch_length\<close>, with
  \<open>num_stitches = \<lceil>section_length / stitch_length\<rceil>\<close> and
  \<open>actual_stitch_length = section_length / num_stitches\<close>, it appends after the first point
  of the section exactly the points at the arc lengths \<open>k * actual_stitch_length\<close> for
  \<open>k = 1, \<dots>, num_stitches - 1\<close>; the ends of the section are at arc lengths \<open>0\<close> and
  \<open>num_stitches * actual_stitch_length = section_length\<close>, and
  \<open>actual_stitch_length \<le> stitch_length\<close>.
\<close>

lemma section_stitches_evenly_spaced_exact:
  assumes "0 < stitch_length"
    and "section_length = linestring_length section"
    and "stitch_length < section_length"
    and "num_stitches = \<lceil>section_length / stitch_length\<rceil>"
    and "actual_stitch_length = section_length / real_of_int num_stitches"
  shows "stitch_section section stitch_length output =
           Some (Inr ((if output = [] \<or> last output \<noteq> hd section
                       then output @ [hd section] else output) @
                      map (\<lambda>k. point_at section (real k * actual_stitch_length))
                          [1..<nat num_stitches])) \<and>
         hd section = point_at section (real 0 * actual_stitch_length) \<and>
         last section = point_at section (real (nat num_stitches) * actual_stitch_length) \<and>
         real (nat num_stitches) * actual_stitch_length = section_length \<and>
         0 < actual_stitch_length \<and> actual_stitch_length \<le> stitch_length"
proof -
  from assms(1-3) have ne: "section \<noteq> []" by auto
  then obtain s0 rest where sec: "section = s0 # rest" by (cases "section") auto
  have L: "stitch_length < linestring_length (s0 # rest)" using assms(2) assms(3) sec by simp
  note sc = section_count [OF assms(1) L]
  have n: "1 < num_stitches" using sc(1) assms(2) assms(4) sec by simp
  have a: "0 < actual_stitch_length" "actual_stitch_length \<le> stitch_length"
    using sc(2) sc(3) assms(2) assms(4) assms(5) sec by simp_all
  have na: "real (nat num_stitches) * actual_stitch_length = section_length"
    using n unfolding assms(5) by simp
  have 1: "stitch_section section stitch_length output =
           Some (Inr ((if output = [] \<or> last output \<noteq> hd section
                       then output @ [hd section] else output) @
                      map (\<lambda>k. point_at section (real k * actual_stitch_length))
                          [1..<nat num_stitches]))"
    using stitch_section_long [OF assms(1) L, of "output"]
    unfolding assms(4) assms(5) assms(2) sec by simp
  have 2: "hd section = point_at section (real 0 * actual_stitch_length)"
    using point_at_start [OF ne] by simp
  have 3: "last section = point_at section (real (nat num_stitches) * actual_stitch_length)"
    unfolding na using point_at_end [OF ne, of section_length] assms(2) by simp
  from 1 2 3 na a show ?thesis by blast
qed

section \<open>\<^verbatim>\<open>running_stitch\<close> with a stitch length that is not positive\<close>








section \<open>Evaluation of the rounding\<close>

lemma binary64_zero: "binary64 0 = 0"
  by (simp add: binary64_def)

lemma binary64_eval:
  assumes n: "n \<le> 1074" and lo: "2 ^ 52 \<le> \<bar>x\<bar> * 2 ^ n" and hi: "\<bar>x\<bar> * 2 ^ n < 2 ^ 53"
  shows "binary64 x = real_of_int (round_half_even (x * 2 ^ n)) / 2 ^ n"
proof -
  have x0: "x \<noteq> 0" using lo by auto
  then have ax: "0 < \<bar>x\<bar>" by simp
  have p: "2 powr (real_of_int (52 - int n)) = 2 ^ 52 / 2 ^ n"
    by (simp add: powr_diff powr_realpow)
  have p1: "2 powr (real_of_int (52 - int n + 1)) = 2 ^ 53 / 2 ^ n"
    by (simp add: powr_diff powr_realpow powr_add)
  have "2 powr (real_of_int (52 - int n)) \<le> \<bar>x\<bar>"
    unfolding p using lo by (simp add: pos_divide_le_eq)
  moreover have "\<bar>x\<bar> < 2 powr (real_of_int (52 - int n + 1))"
    unfolding p1 using hi by (simp add: pos_less_divide_eq)
  ultimately have e: "\<lfloor>log 2 \<bar>x\<bar>\<rfloor> = 52 - int n"
    using ax by (simp add: floor_log_eq_powr_iff)
  have m: "max (52 - int n) (- 1022) = 52 - int n" using n by simp
  have u: "2 powr (real_of_int (52 - int n) - 52) = 1 / 2 ^ n"
    by (simp add: powr_minus powr_realpow divide_simps)
  show ?thesis
    using x0 by (simp add: binary64_def Let_def e m u del: of_int_diff)
qed

section \<open>The walk in floating-point arithmetic\<close>


lemma binary64_walk_values:
  "binary64 (1 / 10) = 3602879701896397 / 36028797018963968"
  "binary64 (3602879701896397 / 36028797018963968) = 3602879701896397 / 36028797018963968"
  "binary64 (3602879701896397 / 18014398509481984) = 3602879701896397 / 18014398509481984"
  "binary64 (10808639105689191 / 36028797018963968) = 1351079888211149 / 4503599627370496"
  "binary64 (1351079888211149 / 4503599627370496) = 1351079888211149 / 4503599627370496"
  "binary64 (3602879701896397 / 9007199254740992) = 3602879701896397 / 9007199254740992"
  "binary64 (14411518807585589 / 36028797018963968) = 3602879701896397 / 9007199254740992"
  "binary64 (1 / 2) = 1 / 2"
  "binary64 (18014398509481985 / 36028797018963968) = 1 / 2"
  "binary64 (5404319552844595 / 9007199254740992) = 5404319552844595 / 9007199254740992"
  "binary64 (21617278211378381 / 36028797018963968) = 5404319552844595 / 9007199254740992"
  "binary64 (3152519739159347 / 4503599627370496) = 3152519739159347 / 4503599627370496"
  "binary64 (25220157913274777 / 36028797018963968) = 3152519739159347 / 4503599627370496"
  "binary64 (7205759403792793 / 9007199254740992) = 7205759403792793 / 9007199254740992"
  "binary64 (28823037615171173 / 36028797018963968) = 7205759403792793 / 9007199254740992"
  "binary64 (2026619832316723 / 2251799813685248) = 2026619832316723 / 2251799813685248"
  "binary64 (32425917317067569 / 36028797018963968) = 2026619832316723 / 2251799813685248"
  "binary64 (9007199254740991 / 9007199254740992) = 9007199254740991 / 9007199254740992"
  "binary64 (36028797018963965 / 36028797018963968) = 9007199254740991 / 9007199254740992"
  "binary64 1 = 1"
  "binary64 (4953959590107545 / 4503599627370496) = 4953959590107545 / 4503599627370496"
  "binary64 (39631676720860361 / 36028797018963968) = 4953959590107545 / 4503599627370496"
  "binary64 (64 / 7) = 2573485501354569 / 281474976710656"
  "binary64 10 = 10"
  by (simp_all add: binary64_eval [where n = 49] binary64_eval [where n = 52] binary64_eval [where n = 53] binary64_eval [where n = 54] binary64_eval [where n = 55] binary64_eval [where n = 56] round_half_even_def)

lemma walk_while_value:
  "stitch_while_fl binary64 (3602879701896397 / 36028797018963968) (0, 0) (1, 0) 1
     (3602879701896397 / 36028797018963968) [(0, 0)] =
   Some (4953959590107545 / 4503599627370496,
      [(0, 0),
       (3602879701896397 / 36028797018963968, 0),
       (3602879701896397 / 18014398509481984, 0),
       (1351079888211149 / 4503599627370496, 0),
       (3602879701896397 / 9007199254740992, 0),
       (1 / 2, 0),
       (5404319552844595 / 9007199254740992, 0),
       (3152519739159347 / 4503599627370496, 0),
       (7205759403792793 / 9007199254740992, 0),
       (2026619832316723 / 2251799813685248, 0),
       (9007199254740991 / 9007199254740992, 0)])"
  by (simp add: stitch_while_fl.simps point_add_fl_def point_mul_fl_def binary64_zero
      binary64_walk_values)


lemma linestring_length_unit_value: "linestring_length_fl binary64 [(0, 0), (1, 0)] = 1"
  by (simp add: linestring_length_fl_def segment_length_fl_def Let_def binary64_zero
      binary64_walk_values)

lemma section_value:
  "stitch_section_fl binary64 [(0, 0), (1, 0)] (7 / 64) [] =
   Some (Inr
      [(0, 0),
       (3602879701896397 / 36028797018963968, 0),
       (3602879701896397 / 18014398509481984, 0),
       (1351079888211149 / 4503599627370496, 0),
       (3602879701896397 / 9007199254740992, 0),
       (1 / 2, 0),
       (5404319552844595 / 9007199254740992, 0),
       (3152519739159347 / 4503599627370496, 0),
       (7205759403792793 / 9007199254740992, 0),
       (2026619832316723 / 2251799813685248, 0),
       (9007199254740991 / 9007199254740992, 0)])"
  by (simp add: stitch_section_fl_def linestring_length_unit_value Let_def
      point_sub_fl_def point_length_fl_def point_unit_fl_def point_mul_fl_def
      binary64_zero binary64_walk_values walk_while_value)

text \<open>
  C4. The claim: in a section longer than \<^verbatim>\<open>stitch_length\<close>, every two consecutive points are
  exactly \<open>section_length / \<lceil>section_length / stitch_length\<rceil>\<close> apart along the path. The
  code accumulates \<^verbatim>\<open>distance += actual_stitch_length\<close> in floats. On the path from \<open>(0, 0)\<close>
  to \<open>(1, 0)\<close> with \<^verbatim>\<open>stitch_length = 0.109375\<close> the section has \<open>10\<close> stitches of length
  \<open>0.1\<close>; the tenth sum of \<open>0.1\<close> is \<open>1 - 1/2^53\<close>, still below the length \<open>1\<close>, so the loop
  appends a tenth interior point there, and the last stitch, to \<open>(1, 0)\<close>, has length
  \<open>1/2^53\<close> instead of \<open>0.1\<close>.
\<close>

theorem running_stitch_extra_stitch_in_floats:
  "running_stitch_fl binary64 keep_ends [(0, 0), (1, 0)] (7 / 64) 0 =
   Some (Inr
      [(0, 0),
       (3602879701896397 / 36028797018963968, 0),
       (3602879701896397 / 18014398509481984, 0),
       (1351079888211149 / 4503599627370496, 0),
       (3602879701896397 / 9007199254740992, 0),
       (1 / 2, 0),
       (5404319552844595 / 9007199254740992, 0),
       (3152519739159347 / 4503599627370496, 0),
       (7205759403792793 / 9007199254740992, 0),
       (2026619832316723 / 2251799813685248, 0),
       (9007199254740991 / 9007199254740992, 0),
       (1, 0)])"
  by (simp add: running_stitch_fl_def important_point_indices_def keep_ends_def Let_def
      section_value upt_conv_Cons)

section \<open>The splitters in floating-point arithmetic\<close>

lemma binary64_phase_values:
  "binary64 (9007199254740991 / 9007199254740992) = 9007199254740991 / 9007199254740992"
  "binary64 1 = 1"
  "binary64 (9007199254740991 / 4503599627370496) = 9007199254740991 / 4503599627370496"
  "binary64 (18014398509481983 / 9007199254740992) = 2"
  "binary64 2 = 2"
  "binary64 (27021597764222973 / 9007199254740992) = 6755399441055743 / 2251799813685248"
  by (simp_all add: binary64_eval [where n = 51] binary64_eval [where n = 52] binary64_eval [where n = 53] round_half_even_def)


lemma random_phase_loop_fl_below:
  assumes "random_phase_loop_fl rnd xs len ls d i progress splits = Some out"
    and "list_all (\<lambda>x. x < d) splits"
  shows "list_all (\<lambda>x. x < d) out"
proof -
  have "list_all (\<lambda>x. x < d) splits \<longrightarrow> list_all (\<lambda>x. x < d) out"
    by (rule random_phase_loop_fl.raw_induct
          [where P = "\<lambda>rnd xs len ls d i progress splits out.
                        list_all (\<lambda>x. x < d) splits \<longrightarrow> list_all (\<lambda>x. x < d) out",
           OF _ assms(1)])
       (auto split: if_splits simp: not_le)
  with assms(2) show ?thesis by simp
qed

lemma random_phase_splits_fl_below:
  assumes "random_phase_splits_fl rnd G a b len ls seed = Some splits"
  shows "list_all (\<lambda>x. x < linestring_length_fl rnd [a, b]) splits"
proof (cases "linestring_length_fl rnd [a, b] \<le> rnd (len * uniformFloats G [seed, ''phase''] 0)")
  case True
  with assms show ?thesis by (simp add: random_phase_splits_fl_def Let_def)
next
  case False
  with assms have
    "random_phase_loop_fl rnd (iterUniformFloats G seed) len ls (linestring_length_fl rnd [a, b]) 0
       (rnd (len * uniformFloats G [seed, ''phase''] 0))
       [rnd (len * uniformFloats G [seed, ''phase''] 0)] = Some splits"
    by (simp add: random_phase_splits_fl_def Let_def)
  from random_phase_loop_fl_below [OF this] False show ?thesis by (simp add: not_le)
qed

lemma linestring_length_far_end_value: "linestring_length_fl binary64 [(1, 0), (2, 0)] = 1"
  by (simp add: linestring_length_fl_def segment_length_fl_def Let_def binary64_zero
      binary64_phase_values)

lemma random_phase_far_end_splits:
  "random_phase_splits_fl binary64 example_prng (1, 0) (2, 0)
     (9007199254740991 / 4503599627370496) 0 ''seed''
   = Some [9007199254740991 / 9007199254740992]"
  by (simp add: random_phase_splits_fl_def Let_def example_prng_def linestring_length_far_end_value
      random_phase_loop_fl.simps binary64_zero binary64_phase_values)

lemma interpolate_far_end_value:
  "interpolate_fl binary64 (1, 0) (2, 0) (9007199254740991 / 9007199254740992) False = (2, 0)"
  by (simp add: interpolate_fl_def Let_def linestring_length_far_end_value segment_length_fl_def
      binary64_zero binary64_phase_values)

lemma random_phase_far_end_value:
  "split_segment_random_phase_fl binary64 example_prng (1, 0) (2, 0)
     (9007199254740991 / 4503599627370496) 0 ''seed''
   = Some [(2, 0)]"
  by (simp add: split_segment_random_phase_fl_def random_phase_far_end_splits
      interpolate_far_end_value)









text \<open>
  C6, as amended. With any rounding of the arithmetic, so also with that of the floats:
  if the first offset \<open>length \<times> u\<^sub>0\<close> reaches or exceeds the length of the segment,
  \<^verbatim>\<open>split_segment_random_phase\<close> returns the empty sequence; and whenever it returns, its
  points are the interpolations of the kept offsets, each of which is strictly below the
  length of the segment.
\<close>

theorem split_random_phase_offsets_below_length:
  "(linestring_length_fl rnd [a, b] \<le> rnd (len * uniformFloats G [seed, ''phase''] 0) \<longrightarrow>
      split_segment_random_phase_fl rnd G a b len length_sigma seed = Some []) \<and>
   (\<forall>pts. split_segment_random_phase_fl rnd G a b len length_sigma seed = Some pts \<longrightarrow>
      (\<exists>offsets. random_phase_splits_fl rnd G a b len length_sigma seed = Some offsets \<and>
         pts = map (\<lambda>x. interpolate_fl rnd a b x False) offsets \<and>
         list_all (\<lambda>x. x < linestring_length_fl rnd [a, b]) offsets))"
proof (intro conjI allI impI)
  assume "linestring_length_fl rnd [a, b] \<le> rnd (len * uniformFloats G [seed, ''phase''] 0)"
  then show "split_segment_random_phase_fl rnd G a b len length_sigma seed = Some []"
    by (simp add: split_segment_random_phase_fl_def random_phase_splits_fl_def Let_def)
next
  fix pts
  assume "split_segment_random_phase_fl rnd G a b len length_sigma seed = Some pts"
  then obtain splits where sp: "random_phase_splits_fl rnd G a b len length_sigma seed = Some splits"
    and pts: "pts = map (\<lambda>x. interpolate_fl rnd a b x False) splits"
    by (auto simp: split_segment_random_phase_fl_def)
  from random_phase_splits_fl_below [OF sp] sp pts
  show "\<exists>offsets. random_phase_splits_fl rnd G a b len length_sigma seed = Some offsets \<and>
         pts = map (\<lambda>x. interpolate_fl rnd a b x False) offsets \<and>
         list_all (\<lambda>x. x < linestring_length_fl rnd [a, b]) offsets"
    by blast
qed

theorem split_random_phase_offsets_below_length_witness:
  "split_segment_random_phase_fl binary64 example_prng (1, 0) (2, 0) 4 0 ''seed'' = Some [] \<and>
   (\<exists>offsets.
      random_phase_splits_fl binary64 example_prng (1, 0) (2, 0)
        (9007199254740991 / 4503599627370496) 0 ''seed'' = Some offsets \<and>
      [(2, 0)] = map (\<lambda>x. interpolate_fl binary64 (1, 0) (2, 0) x False) offsets \<and>
      list_all (\<lambda>x. x < 1) offsets)"
proof -
  have "linestring_length_fl binary64 [(1, 0), (2, 0)]
      \<le> binary64 (4 * uniformFloats example_prng [''seed'', ''phase''] 0)"
    by (simp add: linestring_length_far_end_value example_prng_def binary64_phase_values)
  then show ?thesis
    using split_random_phase_offsets_below_length
        [of binary64 "(1, 0)" "(2, 0)" 4 example_prng "''seed''" 0]
      split_random_phase_offsets_below_length
        [of binary64 "(1, 0)" "(2, 0)" "9007199254740991 / 4503599627370496" example_prng
          "''seed''" 0]
    by (simp add: random_phase_far_end_value linestring_length_far_end_value)
qed

text \<open>
  C6. The claim: no point that \<^verbatim>\<open>split_segment_random_phase\<close> returns lies at or beyond the
  far endpoint \<open>b\<close>. On the segment from \<open>(1, 0)\<close> to \<open>(2, 0)\<close> with \<open>length = 2 - 1/2^52\<close>,
  \<open>length_sigma = 0\<close> and draws \<open>1/2\<close> the only kept offset is \<open>1 - 1/2^53\<close>, strictly below
  the length \<open>1\<close>, and the interpolation \<open>1 + (1 - 1/2^53)\<close> rounds to \<open>2\<close>: the returned
  point is \<open>b\<close>.
\<close>

theorem split_random_phase_far_end_counterexample:
  "split_segment_random_phase_fl binary64 example_prng (1, 0) (2, 0)
     (9007199254740991 / 4503599627370496) 0 ''seed'' = Some [(2, 0)] \<and>
   random_phase_splits_fl binary64 example_prng (1, 0) (2, 0)
     (9007199254740991 / 4503599627370496) 0 ''seed'' = Some [9007199254740991 / 9007199254740992] \<and>
   (9007199254740991 / 9007199254740992 :: real) < linestring_length_fl binary64 [(1, 0), (2, 0)]"
  by (simp add: random_phase_far_end_value random_phase_far_end_splits
      linestring_length_far_end_value)

end
